theory Spec2Isabelle
  imports Main "HOL-Library.AList"
begin

section \<open>The JavaScript runtime the demos run on\<close>

text \<open>
  The demos are TypeScript modules executed by a single-threaded JavaScript engine. The
  parts of that engine the modules touch are made explicit here: promises with an
  identity (their index in the table of allocated promises), the timer queue filled by
  \<^verbatim>\<open>setTimeout\<close>, the microtask queue that resumes an \<^verbatim>\<open>await\<close>, and the
  module-level caches. Numeric keys are the integers the components produce
  (\<^verbatim>\<open>useState(1)\<close> and \<^verbatim>\<open>userId + 1\<close>); strings are byte lists.
\<close>

subsection \<open>Payloads\<close>

record user =
  user_id :: int
  user_name :: string
  user_email :: string

record post =
  post_id :: int
  post_title :: string

record product =
  product_id :: int
  product_name :: string
  product_price :: int
  product_serverOnly :: string

record server_data =
  products :: "product list"

datatype jsvalue =
    Undefined
  | UserV user
  | PostsV "post list"
  | ServerDataV server_data

subsection \<open>Promises, timers and microtasks\<close>

text \<open>
  A reaction is a continuation waiting on a promise. The only one in the repository is
  the rest of the async function \<^verbatim>\<open>fetchServerData\<close> after its \<^verbatim>\<open>await\<close>; it
  carries the promise the async call returned.
\<close>

datatype reaction = ResumeFetchServerData nat

datatype promise_state =
    Pending "reaction list"
  | Fulfilled jsvalue
  | Rejected jsvalue

text \<open>A timer callback: both callbacks in the repository call a promise's \<^verbatim>\<open>resolve\<close>.\<close>

datatype callback = ResolveWith nat jsvalue

type_synonym microtask = "reaction \<times> promise_state"

type_synonym ('k, 'v) jsmap = "('k \<times> 'v) list"

record world =
  now :: nat
  promises :: "promise_state list"
  timers :: "(nat \<times> callback) list"
  microtasks :: "microtask list"
  userCache :: "(int, nat) jsmap"
  postsCache :: "(int, nat) jsmap"
  serverDataCache :: "nat option"

definition init_world :: world where
  "init_world = \<lparr>now = 0, promises = [], timers = [], microtasks = [],
     userCache = [], postsCache = [], serverDataCache = None\<rparr>"

fun is_pending :: "promise_state \<Rightarrow> bool" where
  "is_pending (Pending rs) = True"
| "is_pending (Fulfilled v) = False"
| "is_pending (Rejected e) = False"

fun is_rejected :: "promise_state \<Rightarrow> bool" where
  "is_rejected (Rejected e) = True"
| "is_rejected (Pending rs) = False"
| "is_rejected (Fulfilled v) = False"

text \<open>\<^verbatim>\<open>new Promise(...)\<close>: a fresh pending promise; its handle is its index.\<close>

definition new_promise :: "world \<Rightarrow> nat \<times> world" where
  "new_promise w = (length (promises w), w\<lparr>promises := promises w @ [Pending []]\<rparr>)"

text \<open>
  Settling a promise: a pending promise takes its final state and its reactions are
  queued as microtasks; a settled promise ignores the call, as in JavaScript.
\<close>

definition settle :: "nat \<Rightarrow> promise_state \<Rightarrow> world \<Rightarrow> world" where
  "settle p st w =
     (if p < length (promises w) then
        (case promises w ! p of
           Pending rs \<Rightarrow>
             w\<lparr>promises := (promises w)[p := st],
               microtasks := microtasks w @ map (\<lambda>r. (r, st)) rs\<rparr>
         | Fulfilled v \<Rightarrow> w
         | Rejected e \<Rightarrow> w)
      else w)"

definition resolve :: "nat \<Rightarrow> jsvalue \<Rightarrow> world \<Rightarrow> world" where
  "resolve p v w = settle p (Fulfilled v) w"

definition reject :: "nat \<Rightarrow> jsvalue \<Rightarrow> world \<Rightarrow> world" where
  "reject p e w = settle p (Rejected e) w"

text \<open>\<^verbatim>\<open>await q\<close> with continuation \<open>r\<close>: wait while \<open>q\<close> is pending, else resume in a microtask.\<close>

definition subscribe :: "nat \<Rightarrow> reaction \<Rightarrow> world \<Rightarrow> world" where
  "subscribe q r w =
     (if q < length (promises w) then
        (case promises w ! q of
           Pending rs \<Rightarrow> w\<lparr>promises := (promises w)[q := Pending (rs @ [r])]\<rparr>
         | Fulfilled v \<Rightarrow> w\<lparr>microtasks := microtasks w @ [(r, Fulfilled v)]\<rparr>
         | Rejected e \<Rightarrow> w\<lparr>microtasks := microtasks w @ [(r, Rejected e)]\<rparr>)
      else w)"

text \<open>
  \<^verbatim>\<open>setTimeout(cb, delay)\<close>: the callback becomes due \<open>delay\<close> milliseconds from now.
\<close>

definition setTimeout :: "callback \<Rightarrow> nat \<Rightarrow> world \<Rightarrow> world" where
  "setTimeout cb delay w = w\<lparr>timers := timers w @ [(now w + delay, cb)]\<rparr>"

text \<open>
  The product list \<^verbatim>\<open>fetchServerData\<close> returns (ServerComponentsDemo.tsx).
\<close>

definition server_products :: server_data where
  "server_products = \<lparr>products =
     [\<lparr>product_id = 1, product_name = ''Laptop'', product_price = 999,
        product_serverOnly = ''Secret: Database connection string - never sent to client!''\<rparr>,
      \<lparr>product_id = 2, product_name = ''Mouse'', product_price = 29,
        product_serverOnly = ''Secret: API key - stays on server!''\<rparr>,
      \<lparr>product_id = 3, product_name = ''Keyboard'', product_price = 79,
        product_serverOnly = ''Secret: Internal server data''\<rparr>]\<rparr>"

text \<open>
  Resuming \<^verbatim>\<open>fetchServerData\<close> after \<^verbatim>\<open>await new Promise(...)\<close>: when the awaited
  promise fulfilled, the function returns the product list, which resolves the promise
  of the call; had it rejected, the \<^verbatim>\<open>await\<close> would throw and reject it.
\<close>

fun run_microtask :: "microtask \<Rightarrow> world \<Rightarrow> world" where
  "run_microtask (ResumeFetchServerData outer, Fulfilled v) w =
     resolve outer (ServerDataV server_products) w"
| "run_microtask (ResumeFetchServerData outer, Rejected e) w = reject outer e w"
| "run_microtask (ResumeFetchServerData outer, Pending rs) w = w"

text \<open>The microtask checkpoint: run queued microtasks until the queue is empty.\<close>

function drain :: "world \<Rightarrow> world" where
  "drain w =
     (case microtasks w of
        [] \<Rightarrow> w
      | m # ms \<Rightarrow> drain (run_microtask m (w\<lparr>microtasks := ms\<rparr>)))"
  by pat_completeness auto

termination
proof (relation "measures [\<lambda>w. length (filter is_pending (promises w)), \<lambda>w. length (microtasks w)]")
  show "wf (measures [\<lambda>w. length (filter is_pending (promises w)), \<lambda>w. length (microtasks w)])"
    by simp
next
  fix w :: world and m ms
  assume q: "microtasks w = m # ms"
  let ?w = "w\<lparr>microtasks := ms\<rparr>"
  have upd: "length (filter is_pending (xs[p := st])) < length (filter is_pending xs)"
    if "p < length xs" and "is_pending (xs ! p)" and "\<not> is_pending st" for xs p st
    using that
  proof (induction xs arbitrary: p)
    case Nil
    then show ?case by simp
  next
    case (Cons x xs)
    show ?case
    proof (cases p)
      case 0
      with Cons.prems show ?thesis by (simp add: less_Suc_eq_le)
    next
      case (Suc j)
      with Cons.prems have "length (filter is_pending (xs[j := st])) < length (filter is_pending xs)"
        by (intro Cons.IH) simp_all
      with Suc show ?thesis by simp
    qed
  qed
  have settles: "length (filter is_pending (promises (settle p st ?w)))
                   < length (filter is_pending (promises ?w)) \<or> settle p st ?w = ?w"
    if "\<not> is_pending st" for p st
    using that by (auto simp: settle_def upd split: promise_state.splits)
  have "length (filter is_pending (promises (run_microtask m ?w)))
          < length (filter is_pending (promises ?w)) \<or> run_microtask m ?w = ?w"
  proof (cases m)
    case (Pair r st)
    show ?thesis
    proof (cases r)
      case (ResumeFetchServerData outer)
      with Pair show ?thesis
        using settles [of "Fulfilled (ServerDataV server_products)" outer]
          settles [of "Rejected e" outer for e]
        by (cases st) (simp_all add: resolve_def reject_def)
    qed
  qed
  then show "(run_microtask m ?w, w)
      \<in> measures [\<lambda>w. length (filter is_pending (promises w)), \<lambda>w. length (microtasks w)]"
    using q by auto
qed

declare drain.simps [simp del]

text \<open>
  A timer task: the callback runs, then the microtask checkpoint. Letting \<open>dt\<close>
  milliseconds pass runs every timer that has become due, earliest first (timers due at
  the same time in the order they were set), and keeps the others.
\<close>

fun run_callback :: "callback \<Rightarrow> world \<Rightarrow> world" where
  "run_callback (ResolveWith p v) w = resolve p v w"

definition run_task :: "callback \<Rightarrow> world \<Rightarrow> world" where
  "run_task cb w = drain (run_callback cb w)"

definition run_tasks :: "(nat \<times> callback) list \<Rightarrow> world \<Rightarrow> world" where
  "run_tasks ts w = foldl (\<lambda>w' t. run_task (snd t) w') w ts"

definition advance :: "nat \<Rightarrow> world \<Rightarrow> world" where
  "advance dt w =
     (let t = now w + dt;
          due = filter (\<lambda>x. fst x \<le> t) (timers w);
          later = filter (\<lambda>x. \<not> fst x \<le> t) (timers w)
      in run_tasks (sort_key fst due) (w\<lparr>now := t, timers := later\<rparr>))"

subsection \<open>Numbers in template literals\<close>

text \<open>
  A number that is an integer is written in decimal, with a minus sign when negative.
\<close>

fun show_nat :: "nat \<Rightarrow> string" where
  "show_nat n =
     (if n < 10 then [''0123456789'' ! n]
      else show_nat (n div 10) @ [''0123456789'' ! (n mod 10)])"

declare show_nat.simps [simp del]

definition show_int :: "int \<Rightarrow> string" where
  "show_int i = (if i < 0 then CHR ''-'' # show_nat (nat (- i)) else show_nat (nat i))"

subsection \<open>The built-in Map, as an insertion-ordered association list\<close>

definition Map_has :: "('k, 'v) jsmap \<Rightarrow> 'k \<Rightarrow> bool" where
  "Map_has m k = (map_of m k \<noteq> None)"

definition Map_get :: "('k, 'v) jsmap \<Rightarrow> 'k \<Rightarrow> 'v option" where
  "Map_get m k = map_of m k"

definition Map_set :: "('k, 'v) jsmap \<Rightarrow> 'k \<Rightarrow> 'v \<Rightarrow> ('k, 'v) jsmap" where
  "Map_set m k v = AList.update k v m"

text \<open>\<^verbatim>\<open>Map.prototype.delete\<close> never throws; it returns whether an entry was removed.\<close>

definition Map_delete :: "('k, 'v) jsmap \<Rightarrow> 'k \<Rightarrow> ('k, 'v) jsmap \<times> bool" where
  "Map_delete m k = (AList.delete k m, Map_has m k)"

section \<open>SuspenseDemo.tsx: fetch simulators and promise caches\<close>

definition user_payload :: "int \<Rightarrow> user" where
  "user_payload uid =
     \<lparr>user_id = uid, user_name = ''User '' @ show_int uid,
      user_email = ''user'' @ show_int uid @ ''@example.com''\<rparr>"

definition posts_payload :: "int \<Rightarrow> post list" where
  "posts_payload userId =
     [\<lparr>post_id = 1, post_title = ''Post 1 by user '' @ show_int userId\<rparr>,
      \<lparr>post_id = 2, post_title = ''Post 2 by user '' @ show_int userId\<rparr>,
      \<lparr>post_id = 3, post_title = ''Post 3 by user '' @ show_int userId\<rparr>]"

text \<open>
  \<^verbatim>\<open>new Promise((resolve) => { setTimeout(() => { resolve({...}) }, 1500) })\<close>: the
  executor runs at once and only sets the timer.
\<close>

definition fetchUser :: "int \<Rightarrow> world \<Rightarrow> nat \<times> world" where
  "fetchUser uid w =
     (let (p, w1) = new_promise w
      in (p, setTimeout (ResolveWith p (UserV (user_payload uid))) 1500 w1))"

definition fetchPosts :: "int \<Rightarrow> world \<Rightarrow> nat \<times> world" where
  "fetchPosts userId w =
     (let (p, w1) = new_promise w
      in (p, setTimeout (ResolveWith p (PostsV (posts_payload userId))) 2000 w1))"

text \<open>
  The lookups follow the source: \<^verbatim>\<open>has\<close>, then \<^verbatim>\<open>set\<close> with a new fetch on a miss,
  then \<^verbatim>\<open>get\<close>. The non-null assertion on the result of \<^verbatim>\<open>get\<close> is \<open>the\<close>; the
  entry is always there (\<open>getUserPromise_cached\<close>, \<open>getPostsPromise_cached\<close> below).
\<close>

definition getUserPromise :: "int \<Rightarrow> world \<Rightarrow> nat \<times> world" where
  "getUserPromise uid w =
     (let w1 = (if \<not> Map_has (userCache w) uid
                then (let (p, w') = fetchUser uid w
                      in w'\<lparr>userCache := Map_set (userCache w') uid p\<rparr>)
                else w)
      in (the (Map_get (userCache w1) uid), w1))"

definition getPostsPromise :: "int \<Rightarrow> world \<Rightarrow> nat \<times> world" where
  "getPostsPromise userId w =
     (let w1 = (if \<not> Map_has (postsCache w) userId
                then (let (p, w') = fetchPosts userId w
                      in w'\<lparr>postsCache := Map_set (postsCache w') userId p\<rparr>)
                else w)
      in (the (Map_get (postsCache w1) userId), w1))"

text \<open>
  \<^verbatim>\<open>userCache.delete(k)\<close> and \<^verbatim>\<open>postsCache.delete(k)\<close>, as the click handler calls them.
\<close>

definition userCache_delete :: "int \<Rightarrow> world \<Rightarrow> world" where
  "userCache_delete k w = w\<lparr>userCache := fst (Map_delete (userCache w) k)\<rparr>"

definition postsCache_delete :: "int \<Rightarrow> world \<Rightarrow> world" where
  "postsCache_delete k w = w\<lparr>postsCache := fst (Map_delete (postsCache w) k)\<rparr>"

text \<open>
  The component's state is \<^verbatim>\<open>userId\<close> (\<^verbatim>\<open>useState(1)\<close>). The click handler evicts
  the next id from both caches and stores it as the new state.
\<close>

definition SuspenseDemo_initial :: int where
  "SuspenseDemo_initial = 1"

definition handleChangeUser :: "int \<Rightarrow> world \<Rightarrow> int \<times> world" where
  "handleChangeUser userId w =
     (let newId = userId + 1;
          w1 = userCache_delete newId w;
          w2 = postsCache_delete newId w1
      in (newId, w2))"

section \<open>ServerComponentsDemo.tsx: the simulated server fetch\<close>

text \<open>
  \<^verbatim>\<open>async function fetchServerData()\<close>: the call returns its own promise; the body
  creates the timer promise, sets the 800 ms timer whose callback is that promise's
  \<^verbatim>\<open>resolve\<close> (called with no argument), and awaits it.
\<close>

definition fetchServerData :: "world \<Rightarrow> nat \<times> world" where
  "fetchServerData w =
     (let (outer, w1) = new_promise w;
          (inner, w2) = new_promise w1;
          w3 = setTimeout (ResolveWith inner Undefined) 800 w2;
          w4 = subscribe inner (ResumeFetchServerData outer) w3
      in (outer, w4))"

definition getServerData :: "world \<Rightarrow> nat \<times> world" where
  "getServerData w =
     (case serverDataCache w of
        None \<Rightarrow> (let (p, w') = fetchServerData w in (p, w'\<lparr>serverDataCache := Some p\<rparr>))
      | Some p \<Rightarrow> (p, w))"

section \<open>Rendered output\<close>

text \<open>
  What a component renders: host elements with their props (a JSX expression child is a
  text node of its own), and text. Event handlers are not part of the output; they are
  the functions of the sections below.
\<close>

type_synonym props = "(string \<times> string) list"

datatype hnode =
    HEl string props "hnode list"
  | HTxt string

text \<open>
  \<^verbatim>\<open>use(promise)\<close> gives the value of a fulfilled promise; on any other promise the
  component does not render and the enclosing \<^verbatim>\<open>Suspense\<close> boundary shows its fallback.
  A component that does not render is \<open>None\<close>.
\<close>

definition use :: "world \<Rightarrow> nat \<Rightarrow> jsvalue option" where
  "use w p =
     (if p < length (promises w) then
        (case promises w ! p of
           Fulfilled v \<Rightarrow> Some v
         | Pending rs \<Rightarrow> None
         | Rejected e \<Rightarrow> None)
      else None)"

definition Suspense :: "hnode list \<Rightarrow> hnode list option \<Rightarrow> hnode list" where
  "Suspense fallback children = (case children of None \<Rightarrow> fallback | Some hs \<Rightarrow> hs)"

subsection \<open>SuspenseDemo.tsx: components\<close>

definition UserCard :: "world \<Rightarrow> nat \<Rightarrow> hnode list option" where
  "UserCard w userPromise =
     (case use w userPromise of
        Some (UserV u) \<Rightarrow>
          Some [HEl ''div'' [(''className'', ''user-card'')]
                 [HEl ''h3'' [] [HTxt (user_name u)],
                  HEl ''p'' [] [HTxt (user_email u)]]]
      | _ \<Rightarrow> None)"

definition PostsList :: "world \<Rightarrow> nat \<Rightarrow> hnode list option" where
  "PostsList w postsPromise =
     (case use w postsPromise of
        Some (PostsV posts) \<Rightarrow>
          Some [HEl ''ul'' [(''className'', ''posts-list'')]
                 (map (\<lambda>p. HEl ''li'' [] [HTxt (post_title p)]) posts)]
      | _ \<Rightarrow> None)"

definition LoadingSpinner :: "string \<Rightarrow> hnode list" where
  "LoadingSpinner label =
     [HEl ''div'' [(''className'', ''loading-spinner'')]
        [HEl ''div'' [(''className'', ''spinner'')] [],
         HEl ''span'' [] [HTxt ''Loading '', HTxt label, HTxt ''...'']]]"

text \<open>
  The component body evaluates \<^verbatim>\<open>getUserPromise(userId)\<close> and then
  \<^verbatim>\<open>getPostsPromise(userId)\<close> while it builds its elements, on every render.
\<close>

definition SuspenseDemo :: "int \<Rightarrow> world \<Rightarrow> hnode list \<times> world" where
  "SuspenseDemo userId w =
     (let (userPromise, w1) = getUserPromise userId w;
          (postsPromise, w2) = getPostsPromise userId w1
      in ([HEl ''div'' [(''className'', ''demo-section'')]
            [HEl ''h2'' [] [HTxt ''Suspense Demo''],
             HEl ''p'' [(''className'', ''demo-description'')]
               [HTxt (''React 19'' @ [CHR 0x27] @ ''s ''),
                HEl ''code'' [] [HTxt ''use()''],
                HTxt '' hook lets you read promises directly in components. Suspense boundaries catch the pending state and show fallback UI.''],
             HEl ''button'' [(''className'', ''demo-button'')]
               [HTxt ''Load User '', HTxt (show_int (userId + 1))],
             HEl ''div'' [(''className'', ''suspense-container'')]
               (Suspense (LoadingSpinner ''user'')
                  (case UserCard w2 userPromise of
                     None \<Rightarrow> None
                   | Some userCard \<Rightarrow>
                       Some (userCard @ Suspense (LoadingSpinner ''posts'')
                                      (PostsList w2 postsPromise))))]],
          w2))"

subsection \<open>ActivityDemo.tsx\<close>

record video_state =
  currentTime :: int
  isPlaying :: bool

record comment_state =
  draft_text :: string
  draft_name :: string

definition VideoPlayer_initial :: video_state where
  "VideoPlayer_initial = \<lparr>currentTime = 0, isPlaying = False\<rparr>"

definition CommentDraft_initial :: comment_state where
  "CommentDraft_initial = \<lparr>draft_text = [], draft_name = []\<rparr>"

text \<open>
  The handlers of the two stateful panels: the play button, the slider, the callback of
  the one-second interval (installed by the effect only while \<^verbatim>\<open>isPlaying\<close>), and the
  two text fields.
\<close>

definition togglePlay :: "video_state \<Rightarrow> video_state" where
  "togglePlay v = v\<lparr>isPlaying := \<not> isPlaying v\<rparr>"

definition seek :: "int \<Rightarrow> video_state \<Rightarrow> video_state" where
  "seek t v = v\<lparr>currentTime := t\<rparr>"

definition interval_tick :: "video_state \<Rightarrow> video_state" where
  "interval_tick v =
     (if \<not> isPlaying v then v
      else if currentTime v \<ge> 100 then v\<lparr>currentTime := 0, isPlaying := False\<rparr>
      else v\<lparr>currentTime := currentTime v + 1\<rparr>)"

definition setText :: "string \<Rightarrow> comment_state \<Rightarrow> comment_state" where
  "setText s c = c\<lparr>draft_text := s\<rparr>"

definition setName :: "string \<Rightarrow> comment_state \<Rightarrow> comment_state" where
  "setName s c = c\<lparr>draft_name := s\<rparr>"

definition VideoPlayer :: "string \<Rightarrow> video_state \<Rightarrow> hnode list" where
  "VideoPlayer ident v =
     [HEl ''div'' [(''className'', ''video-player'')]
        [HEl ''div'' [(''className'', ''video-placeholder'')]
           (HEl ''span'' [] [HTxt ''Video '', HTxt ident] #
            (if isPlaying v
             then [HEl ''span'' [(''className'', ''playing-indicator'')] [HTxt ''Playing...'']]
             else [])),
         HEl ''div'' [(''className'', ''video-controls'')]
           [HEl ''button'' []
              [HTxt (if isPlaying v then [CHR 0xE2, CHR 0x8F, CHR 0xB8] @ '' Pause''
                     else [CHR 0xE2, CHR 0x96, CHR 0xB6] @ '' Play'')],
            HEl ''input''
              [(''type'', ''range''), (''min'', ''0''), (''max'', ''100''),
               (''value'', show_int (currentTime v)), (''className'', ''time-slider'')] [],
            HEl ''span'' [] [HTxt (show_int (currentTime v)), HTxt ''s'']],
         HEl ''p'' [(''className'', ''state-indicator'')]
           [HTxt ''State: '', HTxt (if isPlaying v then ''Playing'' else ''Paused''),
            HTxt '' at '', HTxt (show_int (currentTime v)), HTxt ''s'']]]"

definition CommentDraft :: "comment_state \<Rightarrow> hnode list" where
  "CommentDraft c =
     [HEl ''div'' [(''className'', ''comment-draft'')]
        [HEl ''h4'' [] [HTxt ''Draft Comment''],
         HEl ''input''
           [(''type'', ''text''), (''placeholder'', ''Your name''),
            (''value'', draft_name c), (''className'', ''comment-input'')] [],
         HEl ''textarea''
           [(''placeholder'', ''Write a comment...''), (''value'', draft_text c),
            (''className'', ''comment-textarea'')] [],
         HEl ''p'' [(''className'', ''state-indicator'')]
           [HTxt ''Draft: '',
            HTxt (if draft_name c \<noteq> [] then draft_name c @ '': '' else []),
            HTxt (if draft_text c \<noteq> [] then draft_text c else ''(empty)'')]]]"

datatype tab = Tab_video | Tab_comment | Tab_other

datatype activity_mode = Visible | Hidden

datatype panel = VideoPlayer_panel | CommentDraft_panel | Other_panel

text \<open>
  The three \<^verbatim>\<open>Activity\<close> elements of the tab content, in source order: each is always
  part of the output, only its mode depends on the active tab. An \<^verbatim>\<open>Activity\<close> keeps
  its children mounted in either mode, as the comment in the source says.
\<close>

definition ActivityDemo_children :: "tab \<Rightarrow> (activity_mode \<times> panel) list" where
  "ActivityDemo_children active =
     [(if active = Tab_video then Visible else Hidden, VideoPlayer_panel),
      (if active = Tab_comment then Visible else Hidden, CommentDraft_panel),
      (if active = Tab_other then Visible else Hidden, Other_panel)]"

record activity_demo =
  activeTab :: tab
  videoPlayer :: "video_state option"
  commentDraft :: "comment_state option"

text \<open>
  Committing a render: a component that is part of the output keeps the state it has,
  or starts from its initial state when it was not mounted before; one that is not part
  of the output is unmounted and its state is gone.
\<close>

definition mount :: "panel \<Rightarrow> (activity_mode \<times> panel) list \<Rightarrow> 's \<Rightarrow> 's option \<Rightarrow> 's option" where
  "mount pn rendered initial old =
     (if pn \<in> set (map snd rendered)
      then Some (case old of None \<Rightarrow> initial | Some s \<Rightarrow> s)
      else None)"

definition ActivityDemo_commit :: "activity_demo \<Rightarrow> activity_demo" where
  "ActivityDemo_commit s =
     s\<lparr>videoPlayer :=
          mount VideoPlayer_panel (ActivityDemo_children (activeTab s))
            VideoPlayer_initial (videoPlayer s),
       commentDraft :=
          mount CommentDraft_panel (ActivityDemo_children (activeTab s))
            CommentDraft_initial (commentDraft s)\<rparr>"

definition ActivityDemo_initial :: activity_demo where
  "ActivityDemo_initial =
     ActivityDemo_commit \<lparr>activeTab = Tab_video, videoPlayer = None, commentDraft = None\<rparr>"

definition setActiveTab :: "tab \<Rightarrow> activity_demo \<Rightarrow> activity_demo" where
  "setActiveTab t s = ActivityDemo_commit (s\<lparr>activeTab := t\<rparr>)"

definition switch_tabs :: "tab list \<Rightarrow> activity_demo \<Rightarrow> activity_demo" where
  "switch_tabs ts s = foldl (\<lambda>s' t. setActiveTab t s') s ts"

definition mode_name :: "activity_mode \<Rightarrow> string" where
  "mode_name m = (case m of Visible \<Rightarrow> ''visible'' | Hidden \<Rightarrow> ''hidden'')"

definition panel_view :: "activity_demo \<Rightarrow> panel \<Rightarrow> hnode list" where
  "panel_view s pn =
     (case pn of
        VideoPlayer_panel \<Rightarrow>
          VideoPlayer ''main''
            (case videoPlayer s of None \<Rightarrow> VideoPlayer_initial | Some v \<Rightarrow> v)
      | CommentDraft_panel \<Rightarrow>
          CommentDraft (case commentDraft s of None \<Rightarrow> CommentDraft_initial | Some c \<Rightarrow> c)
      | Other_panel \<Rightarrow>
          [HEl ''h4'' [] [HTxt ''Other Content''],
           HEl ''p'' [] [HTxt ''This tab has no stateful content to demonstrate the contrast.''],
           HEl ''p'' [] [HTxt ''Try editing the video player time or typing in the comment draft, then switching tabs!'']])"

definition tab_button :: "tab \<Rightarrow> tab \<Rightarrow> string \<Rightarrow> hnode" where
  "tab_button active t label =
     HEl ''button''
       [(''className'', ''tab-button '' @ (if active = t then ''active'' else []))]
       [HTxt label]"

definition ActivityDemo :: "activity_demo \<Rightarrow> hnode list" where
  "ActivityDemo s =
     [HEl ''div'' [(''className'', ''demo-section'')]
        [HEl ''h2'' [] [HTxt ''Activity Demo''],
         HEl ''p'' [(''className'', ''demo-description'')]
           [HEl ''code'' [] [HTxt ''Activity''],
            HTxt '' (formerly Offscreen) preserves component state when hidden. Switch tabs and notice how state is maintained without unmounting components.''],
         HEl ''div'' [(''className'', ''tab-bar'')]
           [tab_button (activeTab s) Tab_video ''Video Player'',
            tab_button (activeTab s) Tab_comment ''Comment Draft'',
            tab_button (activeTab s) Tab_other ''Other Tab''],
         HEl ''div'' [(''className'', ''tab-content'')]
           (map (\<lambda>(m, pn). HEl ''Activity'' [(''mode'', mode_name m)]
                              [HEl ''div'' [(''className'', ''tab-panel'')] (panel_view s pn)])
              (ActivityDemo_children (activeTab s))),
         HEl ''div'' [(''className'', ''demo-note'')]
           [HEl ''strong'' [] [HTxt ''Note:''],
            HTxt ('' Activity is still experimental (unstable_Activity). It'' @ [CHR 0x27]
                  @ ''s useful for tab interfaces, navigation drawers, and any UI where you want to preserve state while hiding content.'')]]]"

text \<open>
  What can happen in the demo: a tab button is clicked, or one of the handlers of the
  two stateful panels runs. A panel's handler changes the state of its own mounted
  instance only.
\<close>

datatype activity_event =
    SetActiveTab tab
  | TogglePlay
  | Seek int
  | IntervalTick
  | SetText string
  | SetName string

fun video_step :: "activity_event \<Rightarrow> video_state \<Rightarrow> video_state" where
  "video_step TogglePlay v = togglePlay v"
| "video_step (Seek t) v = seek t v"
| "video_step IntervalTick v = interval_tick v"
| "video_step (SetActiveTab t) v = v"
| "video_step (SetText x) v = v"
| "video_step (SetName x) v = v"

fun comment_step :: "activity_event \<Rightarrow> comment_state \<Rightarrow> comment_state" where
  "comment_step (SetText x) c = setText x c"
| "comment_step (SetName x) c = setName x c"
| "comment_step (SetActiveTab t) c = c"
| "comment_step TogglePlay c = c"
| "comment_step (Seek t) c = c"
| "comment_step IntervalTick c = c"

fun activity_step :: "activity_event \<Rightarrow> activity_demo \<Rightarrow> activity_demo" where
  "activity_step (SetActiveTab t) s = setActiveTab t s"
| "activity_step TogglePlay s = s\<lparr>videoPlayer := map_option togglePlay (videoPlayer s)\<rparr>"
| "activity_step (Seek t) s = s\<lparr>videoPlayer := map_option (seek t) (videoPlayer s)\<rparr>"
| "activity_step IntervalTick s = s\<lparr>videoPlayer := map_option interval_tick (videoPlayer s)\<rparr>"
| "activity_step (SetText x) s = s\<lparr>commentDraft := map_option (setText x) (commentDraft s)\<rparr>"
| "activity_step (SetName x) s = s\<lparr>commentDraft := map_option (setName x) (commentDraft s)\<rparr>"

definition activity_run :: "activity_event list \<Rightarrow> activity_demo \<Rightarrow> activity_demo" where
  "activity_run es s = foldl (\<lambda>s' e. activity_step e s') s es"

subsection \<open>ViewTransitionsDemo.tsx\<close>

record item =
  item_id :: int
  item_title :: string
  item_description :: string
  item_image :: string

text \<open>The four gallery items; the emoji are written as their UTF-8 bytes.\<close>

definition items :: "item list" where
  "items =
     [\<lparr>item_id = 1, item_title = ''Mountain Vista'',
        item_description = ''A breathtaking view of snow-capped mountains at sunrise. The golden light paints the peaks in warm hues while the valleys below remain in cool shadow.'',
        item_image = [CHR 0xF0, CHR 0x9F, CHR 0x8F, CHR 0x94, CHR 0xEF, CHR 0xB8, CHR 0x8F]\<rparr>,
      \<lparr>item_id = 2, item_title = ''Ocean Waves'',
        item_description = ''Powerful waves crash against weathered rocks on a dramatic coastline. The sea spray catches the afternoon light, creating rainbows in the mist.'',
        item_image = [CHR 0xF0, CHR 0x9F, CHR 0x8C, CHR 0x8A]\<rparr>,
      \<lparr>item_id = 3, item_title = ''Forest Path'',
        item_description = ''A winding trail through an ancient forest, dappled sunlight filtering through the canopy. Moss covers the ground in a soft green carpet.'',
        item_image = [CHR 0xF0, CHR 0x9F, CHR 0x8C, CHR 0xB2]\<rparr>,
      \<lparr>item_id = 4, item_title = ''Desert Sunset'',
        item_description = ''The vast desert landscape transforms under a spectacular sunset. Cacti stand as silhouettes against the vibrant orange and purple sky.'',
        item_image = [CHR 0xF0, CHR 0x9F, CHR 0x8F, CHR 0x9C, CHR 0xEF, CHR 0xB8, CHR 0x8F]\<rparr>]"

definition item_card :: "item \<Rightarrow> hnode" where
  "item_card it =
     HEl ''button'' [(''className'', ''item-card'')]
       [HEl ''span''
          [(''className'', ''item-emoji''),
           (''style.viewTransitionName'', ''image-'' @ show_int (item_id it))]
          [HTxt (item_image it)],
        HEl ''span''
          [(''className'', ''item-title''),
           (''style.viewTransitionName'', ''title-'' @ show_int (item_id it))]
          [HTxt (item_title it)]]"

definition ListView :: "hnode list" where
  "ListView =
     [HEl ''div'' [(''className'', ''list-view'')]
        [HEl ''h3'' [] [HTxt ''Gallery''],
         HEl ''div'' [(''className'', ''item-grid'')] (map item_card items)]]"

definition DetailView :: "item \<Rightarrow> hnode list" where
  "DetailView it =
     [HEl ''div'' [(''className'', ''detail-view'')]
        [HEl ''button'' [(''className'', ''back-button'')]
           [HTxt ([CHR 0xE2, CHR 0x86, CHR 0x90] @ '' Back to Gallery'')],
         HEl ''div'' [(''className'', ''detail-content'')]
           [HEl ''span''
              [(''className'', ''detail-emoji''),
               (''style.viewTransitionName'', ''image-'' @ show_int (item_id it))]
              [HTxt (item_image it)],
            HEl ''h3''
              [(''className'', ''detail-title''),
               (''style.viewTransitionName'', ''title-'' @ show_int (item_id it))]
              [HTxt (item_title it)],
            HEl ''p'' [(''className'', ''detail-description'')]
              [HTxt (item_description it)]]]]"

definition ViewTransitionsDemo :: "item option \<Rightarrow> hnode list" where
  "ViewTransitionsDemo selected =
     [HEl ''div'' [(''className'', ''demo-section'')]
        [HEl ''h2'' [] [HTxt ''View Transitions Demo''],
         HEl ''p'' [(''className'', ''demo-description'')]
           [HTxt (''View Transitions use the browser'' @ [CHR 0x27]
                  @ ''s View Transitions API with''),
            HTxt '' '',
            HEl ''code'' [] [HTxt ''flushSync''],
            HTxt '' to force synchronous DOM updates. Elements with matching '',
            HEl ''code'' [] [HTxt ''viewTransitionName''],
            HTxt '' styles animate smoothly between views.''],
         HEl ''div'' [(''className'', ''transition-container'')]
           (case selected of Some it \<Rightarrow> DetailView it | None \<Rightarrow> ListView),
         HEl ''div'' [(''className'', ''demo-note'')]
           [HEl ''strong'' [] [HTxt ''Note:''],
            HTxt '' View Transitions require browser support (Chrome 111+, Edge 111+). The '',
            HEl ''code'' [] [HTxt ''flushSync''],
            HTxt '' ensures the DOM updates synchronously within the transition callback.'']]]"

text \<open>
  The gallery at run time: the state of the last commit (what the DOM shows), the
  \<^verbatim>\<open>setSelectedItem\<close> calls React has scheduled but not rendered yet, and the views
  the browser's transition captured, in order.
\<close>

record gallery =
  selectedItem :: "item option"
  queued :: "item option list"
  snapshots :: "hnode list list"

definition ViewTransitionsDemo_initial :: gallery where
  "ViewTransitionsDemo_initial = \<lparr>selectedItem = None, queued = [], snapshots = []\<rparr>"

definition dom :: "gallery \<Rightarrow> hnode list" where
  "dom g = ViewTransitionsDemo (selectedItem g)"

text \<open>A state setter only schedules the update.\<close>

definition setSelectedItem :: "item option \<Rightarrow> gallery \<Rightarrow> gallery" where
  "setSelectedItem v g = g\<lparr>queued := queued g @ [v]\<rparr>"

text \<open>React renders the scheduled updates: the last value set wins.\<close>

definition rerender :: "gallery \<Rightarrow> gallery" where
  "rerender g =
     (case queued g of
        [] \<Rightarrow> g
      | v # vs \<Rightarrow> g\<lparr>selectedItem := last (v # vs), queued := []\<rparr>)"

text \<open>\<^verbatim>\<open>flushSync(f)\<close>: the updates scheduled by \<open>f\<close> are rendered before it returns.\<close>

definition flushSync :: "(gallery \<Rightarrow> gallery) \<Rightarrow> gallery \<Rightarrow> gallery" where
  "flushSync f g = rerender (f g)"

text \<open>
  \<^verbatim>\<open>document.startViewTransition(cb)\<close>: the browser captures the current view, calls
  the callback, and captures the view again. The three phases are run in sequence.
\<close>

definition startViewTransition :: "(gallery \<Rightarrow> gallery) \<Rightarrow> gallery \<Rightarrow> gallery" where
  "startViewTransition cb g =
     (let g1 = g\<lparr>snapshots := snapshots g @ [dom g]\<rparr>;
          g2 = cb g1
      in g2\<lparr>snapshots := snapshots g2 @ [dom g2]\<rparr>)"

text \<open>The handlers; the first argument is whether \<^verbatim>\<open>document.startViewTransition\<close> exists.\<close>

definition handleSelect :: "bool \<Rightarrow> item \<Rightarrow> gallery \<Rightarrow> gallery" where
  "handleSelect has_startViewTransition it g =
     (if has_startViewTransition
      then startViewTransition (\<lambda>g'. flushSync (\<lambda>g''. setSelectedItem (Some it) g'') g') g
      else setSelectedItem (Some it) g)"

definition handleBack :: "bool \<Rightarrow> gallery \<Rightarrow> gallery" where
  "handleBack has_startViewTransition g =
     (if has_startViewTransition
      then startViewTransition (\<lambda>g'. flushSync (\<lambda>g''. setSelectedItem None g'') g') g
      else setSelectedItem None g)"

subsection \<open>ServerComponentsDemo.tsx: components\<close>

definition product_card :: "product \<Rightarrow> hnode" where
  "product_card pr =
     HEl ''div'' [(''className'', ''product-card'')]
       [HEl ''h4'' [] [HTxt (product_name pr)],
        HEl ''p'' [(''className'', ''price'')] [HTxt ''$'', HTxt (show_int (product_price pr))],
        HEl ''p'' [(''className'', ''server-secret'')] [HTxt (product_serverOnly pr)]]"

definition ServerProductList :: "world \<Rightarrow> hnode list option \<times> world" where
  "ServerProductList w =
     (let (p, w1) = getServerData w
      in (case use w1 p of
            Some (ServerDataV d) \<Rightarrow>
              Some [HEl ''div'' [(''className'', ''server-component-box'')]
                     [HEl ''h3'' [] [HTxt ''Server Component (simulated)''],
                      HEl ''p'' [(''className'', ''info-text'')]
                        [HTxt ''In a true RSC setup, this component runs only on the server. No JavaScript for this component is sent to the client!''],
                      HEl ''div'' [(''className'', ''products-grid'')]
                        (map product_card (products d))]]
          | _ \<Rightarrow> None,
          w1))"

definition ClientCounter :: "string \<Rightarrow> int \<Rightarrow> hnode list" where
  "ClientCounter productName count =
     [HEl ''div'' [(''className'', ''client-component-box'')]
        [HEl ''h4'' [] [HTxt ''Client Component: '', HTxt productName],
         HEl ''p'' [(''className'', ''info-text'')]
           [HTxt (''This component is marked with '' @ [CHR 0x27] @ ''use client'' @ [CHR 0x27]
                  @ '' (conceptually). It includes JavaScript in the client bundle for interactivity.'')],
         HEl ''div'' [(''className'', ''counter-controls'')]
           [HEl ''button'' [] [HTxt ''-''],
            HEl ''span'' [(''className'', ''count'')] [HTxt ''Quantity: '', HTxt (show_int count)],
            HEl ''button'' [] [HTxt ''+'']]]]"

definition ServerActionDemo :: "string \<Rightarrow> bool \<Rightarrow> hnode list" where
  "ServerActionDemo result loading =
     [HEl ''div'' [(''className'', ''server-action-box'')]
        ([HEl ''h3'' [] [HTxt ''Server Actions (simulated)''],
          HEl ''p'' [(''className'', ''info-text'')]
            [HTxt (''Server Actions let you call server-side functions from client components. They''
                   @ [CHR 0x27] @ ''re marked with '' @ [CHR 0x27] @ ''use server'' @ [CHR 0x27]
                   @ '' and run securely on the server.'')],
          HEl ''form'' []
            [HEl ''input''
               [(''name'', ''product''), (''defaultValue'', ''Laptop''),
                (''placeholder'', ''Product name''), (''required'', ''true'')] [],
             HEl ''input''
               [(''name'', ''quantity''), (''type'', ''number''), (''defaultValue'', ''1''),
                (''min'', ''1''), (''required'', ''true'')] [],
             HEl ''button''
               [(''type'', ''submit''), (''disabled'', if loading then ''true'' else ''false'')]
               [HTxt (if loading then ''Processing...'' else ''Submit Order (Server Action)'')]]]
         @ (if result \<noteq> [] then [HEl ''p'' [(''className'', ''result-message'')] [HTxt result]]
            else []))]"

text \<open>
  The demo with its own state \<^verbatim>\<open>showDemo\<close>; the components below it are shown in
  the state they mount with. The button both clears the module's cache and toggles the
  state.
\<close>

definition ServerComponentsDemo :: "bool \<Rightarrow> world \<Rightarrow> hnode list \<times> world" where
  "ServerComponentsDemo showDemo w =
     (let (container, w1) =
            (if showDemo then
               (let (list, w') = ServerProductList w
                in ([HEl ''div'' [(''className'', ''rsc-demo-container'')]
                       (Suspense
                          [HEl ''div'' [(''className'', ''loading-spinner'')]
                             [HEl ''div'' [(''className'', ''spinner'')] [],
                              HEl ''span'' [] [HTxt ''Loading from server...'']]]
                          list
                        @ ClientCounter ''Laptop'' 0
                        @ ServerActionDemo [] False
                        @ [HEl ''div'' [(''className'', ''composition-box'')]
                             [HEl ''h3'' [] [HTxt ''Component Composition''],
                              HEl ''p'' [(''className'', ''info-text'')]
                                [HTxt ''Server Components can render Client Components as children. This creates an optimal balance: server-side data fetching with client-side interactivity where needed.''],
                              HEl ''div'' [(''className'', ''composition-example'')]
                                [HEl ''div'' [(''className'', ''server-wrapper'')]
                                   [HTxt ''Server Component (wrapper)'',
                                    HEl ''div'' [(''className'', ''client-island'')]
                                      (HTxt ''Client Component (interactive island)''
                                       # ClientCounter ''Mouse'' 0)]]]])],
                    w'))
             else ([], w))
      in ([HEl ''div'' [(''className'', ''demo-section'')]
            ([HEl ''h2'' [] [HTxt ''React Server Components Demo''],
              HEl ''div'' [(''className'', ''demo-description'')]
                [HEl ''p'' []
                   [HTxt ''React Server Components (RSC) let components run exclusively on the server, reducing client bundle size and enabling direct backend access.''],
                 HEl ''ul'' [(''className'', ''feature-list'')]
                   [HEl ''li'' []
                      [HEl ''strong'' [] [HTxt ''Server Components:''],
                       HTxt '' Run only on server, zero client JS''],
                    HEl ''li'' []
                      [HEl ''strong'' [] [HTxt ''Client Components:''],
                       HTxt ('' Marked with '' @ [CHR 0x27] @ ''use client'' @ [CHR 0x27]
                             @ '', interactive'')],
                    HEl ''li'' []
                      [HEl ''strong'' [] [HTxt ''Server Actions:''],
                       HTxt ('' Marked with '' @ [CHR 0x27] @ ''use server'' @ [CHR 0x27]
                             @ '', secure server functions'')],
                    HEl ''li'' []
                      [HEl ''strong'' [] [HTxt ''Async Components:''],
                       HTxt '' Can await data directly in component body'']],
                 HEl ''p'' [(''className'', ''note'')]
                   [HTxt ''Note: This demo illustrates RSC concepts within traditional SSR. For production RSC, use Next.js App Router which has mature, stable support.'']],
              HEl ''button'' [(''className'', ''demo-button'')]
                [HTxt (if showDemo then ''Reset Demo'' else ''Load Server Components'')]]
             @ container)],
          w1))"

definition ServerComponentsDemo_onClick :: "bool \<Rightarrow> world \<Rightarrow> bool \<times> world" where
  "ServerComponentsDemo_onClick showDemo w = (\<not> showDemo, w\<lparr>serverDataCache := None\<rparr>)"

section \<open>App.tsx: the app shell\<close>

text \<open>
  The repository holds two revisions of this file. The shell is taken from the one
  with four demos, which imports \<^verbatim>\<open>ServerComponentsDemo\<close>; the earlier revision is the
  same component without the fourth navigation button, the fourth branch of the main
  area and the words "and Server Components" in the header.
\<close>

text \<open>
  The selection state is the string-literal union
  \<^verbatim>\<open>"suspense" | "activity" | "viewtransitions" | "servercomponents"\<close>.
\<close>

datatype demo = D_suspense | D_activity | D_viewtransitions | D_servercomponents

datatype component =
    C_SuspenseDemo
  | C_ActivityDemo
  | C_ViewTransitionsDemo
  | C_ServerComponentsDemo

text \<open>
  What \<^verbatim>\<open>App\<close> returns: React elements. A host element carries its props, its
  \<^verbatim>\<open>onClick\<close> handler if it has one (every handler of the shell is
  \<^verbatim>\<open>() => setActiveDemo(d)\<close>, kept as \<open>d\<close>), and its children; a component element
  is not expanded by \<^verbatim>\<open>App\<close> itself.
\<close>

datatype element =
    El string props "demo option" "element list"
  | Txt string
  | Comp component

definition App_initial :: demo where
  "App_initial = D_suspense"

definition nav_button :: "demo \<Rightarrow> demo \<Rightarrow> string \<Rightarrow> element" where
  "nav_button activeDemo d label =
     El ''button''
       [(''className'', ''nav-button '' @ (if activeDemo = d then ''active'' else []))]
       (Some d) [Txt label]"

definition App_main :: "demo \<Rightarrow> element list" where
  "App_main activeDemo =
     (if activeDemo = D_suspense then [Comp C_SuspenseDemo] else [])
     @ (if activeDemo = D_activity then [Comp C_ActivityDemo] else [])
     @ (if activeDemo = D_viewtransitions then [Comp C_ViewTransitionsDemo] else [])
     @ (if activeDemo = D_servercomponents then [Comp C_ServerComponentsDemo] else [])"

definition App :: "demo \<Rightarrow> element" where
  "App activeDemo =
     El ''div'' [(''className'', ''app'')] None
       [El ''header'' [(''className'', ''app-header'')] None
          [El ''h1'' [] None [Txt ''React 19 Features Demo''],
           El ''p'' [] None
             [Txt ''Exploring Suspense, Activity, View Transitions, and Server Components'']],
        El ''nav'' [(''className'', ''demo-nav'')] None
          [nav_button activeDemo D_suspense ''Suspense'',
           nav_button activeDemo D_activity ''Activity'',
           nav_button activeDemo D_viewtransitions ''View Transitions'',
           nav_button activeDemo D_servercomponents ''Server Components''],
        El ''main'' [(''className'', ''demo-content'')] None (App_main activeDemo)]"

text \<open>The handlers an element tree offers, and what a click on an element does to the state.\<close>

fun handlers :: "element \<Rightarrow> demo list" and handlers_list :: "element list \<Rightarrow> demo list" where
  "handlers (El tag ps h cs) = (case h of None \<Rightarrow> [] | Some d \<Rightarrow> [d]) @ handlers_list cs"
| "handlers (Txt s) = []"
| "handlers (Comp c) = []"
| "handlers_list [] = []"
| "handlers_list (e # es) = handlers e @ handlers_list es"

definition click :: "demo option \<Rightarrow> demo \<Rightarrow> demo" where
  "click h activeDemo = (case h of None \<Rightarrow> activeDemo | Some d \<Rightarrow> d)"

text \<open>
  The earlier revision of the shell (src/App.tsx): three buttons and three branches.
\<close>

definition App_earlier :: "demo \<Rightarrow> element" where
  "App_earlier activeDemo =
     El ''div'' [(''className'', ''app'')] None
       [El ''header'' [(''className'', ''app-header'')] None
          [El ''h1'' [] None [Txt ''React 19 Features Demo''],
           El ''p'' [] None [Txt ''Exploring Suspense, Activity, and View Transitions'']],
        El ''nav'' [(''className'', ''demo-nav'')] None
          [nav_button activeDemo D_suspense ''Suspense'',
           nav_button activeDemo D_activity ''Activity'',
           nav_button activeDemo D_viewtransitions ''View Transitions''],
        El ''main'' [(''className'', ''demo-content'')] None
          ((if activeDemo = D_suspense then [Comp C_SuspenseDemo] else [])
           @ (if activeDemo = D_activity then [Comp C_ActivityDemo] else [])
           @ (if activeDemo = D_viewtransitions then [Comp C_ViewTransitionsDemo] else []))]"

text \<open>The component a selection stands for.\<close>

definition demo_component :: "demo \<Rightarrow> component" where
  "demo_component d =
     (case d of
        D_suspense \<Rightarrow> C_SuspenseDemo
      | D_activity \<Rightarrow> C_ActivityDemo
      | D_viewtransitions \<Rightarrow> C_ViewTransitionsDemo
      | D_servercomponents \<Rightarrow> C_ServerComponentsDemo)"

section \<open>entry-server.tsx: the server entry\<close>

text \<open>
  \<^verbatim>\<open>renderToString\<close> walks the element tree once, in document order, calling each
  component with the initial values of its state hooks; no handler is called and no
  effect is run. How the resulting nodes are written as a string is React's business
  and is a parameter here.
\<close>

definition render_component :: "component \<Rightarrow> world \<Rightarrow> hnode list \<times> world" where
  "render_component c w =
     (case c of
        C_SuspenseDemo \<Rightarrow> SuspenseDemo SuspenseDemo_initial w
      | C_ActivityDemo \<Rightarrow> (ActivityDemo ActivityDemo_initial, w)
      | C_ViewTransitionsDemo \<Rightarrow> (ViewTransitionsDemo (selectedItem ViewTransitionsDemo_initial), w)
      | C_ServerComponentsDemo \<Rightarrow> ServerComponentsDemo False w)"

fun ssr :: "element \<Rightarrow> world \<Rightarrow> hnode list \<times> world"
  and ssr_list :: "element list \<Rightarrow> world \<Rightarrow> hnode list \<times> world" where
  "ssr (El tag ps h cs) w = (let (hs, w') = ssr_list cs w in ([HEl tag ps hs], w'))"
| "ssr (Txt s) w = ([HTxt s], w)"
| "ssr (Comp c) w = render_component c w"
| "ssr_list [] w = ([], w)"
| "ssr_list (e # es) w =
     (let (hs, w1) = ssr e w; (hs', w2) = ssr_list es w1 in (hs @ hs', w2))"

text \<open>\<^verbatim>\<open>renderToString(<StrictMode><App /></StrictMode>)\<close>: \<^verbatim>\<open>StrictMode\<close> renders its child.\<close>

definition renderToString_App :: "(hnode list \<Rightarrow> string) \<Rightarrow> world \<Rightarrow> string \<times> world" where
  "renderToString_App serialize w =
     (let (hs, w') = ssr (App App_initial) w in (serialize hs, w'))"

text \<open>
  The object \<^verbatim>\<open>render\<close> returns has the property \<^verbatim>\<open>html\<close> only; the server reads
  \<^verbatim>\<open>rendered.head\<close> too, which is absent.
\<close>

record rendered =
  html :: string
  head :: "string option"

definition render ::
  "(hnode list \<Rightarrow> string) \<Rightarrow> string \<Rightarrow> string option \<Rightarrow> world \<Rightarrow> rendered \<times> world" where
  "render serialize url ssrManifest w =
     (let (markup, w') = renderToString_App serialize w
      in (\<lparr>html = markup, head = None\<rparr>, w'))"

text \<open>A plain serializer, to run the entry on concrete inputs.\<close>

fun plain_markup :: "hnode \<Rightarrow> string" and plain_markup_list :: "hnode list \<Rightarrow> string" where
  "plain_markup (HTxt s) = s"
| "plain_markup (HEl tag ps hs) =
     ''<'' @ tag @ ''>'' @ plain_markup_list hs @ ''</'' @ tag @ ''>''"
| "plain_markup_list [] = []"
| "plain_markup_list (h # hs) = plain_markup h @ plain_markup_list hs"

section \<open>main.tsx: the client entry\<close>

datatype dom_node =
    DElement string "dom_node list"
  | DText string
  | DComment string

text \<open>
  What the entry reads of the browser: the child nodes of the element with id
  \<^verbatim>\<open>root\<close> (\<open>None\<close> when the page has no such element). The other fields are there to
  be ignored.
\<close>

record browser =
  root_childNodes :: "dom_node list option"
  has_startViewTransition :: bool
  location :: string

datatype js_error = TypeError

text \<open>The call the entry ends with, and the container it passes.\<close>

datatype mounted =
    HydrateRoot "dom_node list"
  | CreateRoot_render "dom_node list"

fun is_element :: "dom_node \<Rightarrow> bool" where
  "is_element (DElement tag cs) = True"
| "is_element (DText s) = False"
| "is_element (DComment s) = False"

text \<open>\<^verbatim>\<open>Element.children\<close>: the child nodes that are elements.\<close>

definition children :: "dom_node list \<Rightarrow> dom_node list" where
  "children nodes = filter is_element nodes"

definition hasServerContent :: "dom_node list \<Rightarrow> bool" where
  "hasServerContent rootElement = (length (children rootElement) > 0)"

definition main :: "browser \<Rightarrow> js_error + mounted" where
  "main b =
     (case root_childNodes b of
        None \<Rightarrow> Inl TypeError
      | Some rootElement \<Rightarrow>
          if hasServerContent rootElement then Inr (HydrateRoot rootElement)
          else Inr (CreateRoot_render rootElement))"

text \<open>
  Whether the entry took the hydration branch.
\<close>

definition hydrates :: "js_error + mounted \<Rightarrow> bool" where
  "hydrates r = (case r of Inr (HydrateRoot nodes) \<Rightarrow> True | _ \<Rightarrow> False)"

section \<open>Well-formed worlds and runs of the fetch layer\<close>

text \<open>
  A world is well formed when every promise handle it holds (in a timer callback, in a
  waiting reaction, in a cache) is the handle of an allocated promise, and no microtask
  is left over between tasks. The initial world is well formed and every operation of
  the modules keeps it so.
\<close>

fun callback_target :: "callback \<Rightarrow> nat" where
  "callback_target (ResolveWith p v) = p"

fun reaction_target :: "reaction \<Rightarrow> nat" where
  "reaction_target (ResumeFetchServerData outer) = outer"

fun stored_reactions :: "promise_state \<Rightarrow> reaction list" where
  "stored_reactions (Pending rs) = rs"
| "stored_reactions (Fulfilled v) = []"
| "stored_reactions (Rejected e) = []"

definition well_formed :: "world \<Rightarrow> bool" where
  "well_formed w =
     (list_all (\<lambda>t. callback_target (snd t) < length (promises w)) (timers w)
      \<and> list_all (\<lambda>st. list_all (\<lambda>r. reaction_target r < length (promises w))
                           (stored_reactions st)) (promises w)
      \<and> microtasks w = []
      \<and> list_all (\<lambda>e. snd e < length (promises w)) (userCache w)
      \<and> list_all (\<lambda>e. snd e < length (promises w)) (postsCache w)
      \<and> list_all (\<lambda>p. p < length (promises w))
           (case serverDataCache w of None \<Rightarrow> [] | Some p \<Rightarrow> [p]))"

text \<open>
  The operations the components perform on the fetch layer, and the passing of time.
\<close>

datatype fetch_op =
    Get_user int
  | Get_posts int
  | Get_serverData
  | Evict_user int
  | Evict_posts int
  | Reset_serverData
  | Elapse nat

fun apply_op :: "fetch_op \<Rightarrow> world \<Rightarrow> world" where
  "apply_op (Get_user k) w = snd (getUserPromise k w)"
| "apply_op (Get_posts k) w = snd (getPostsPromise k w)"
| "apply_op Get_serverData w = snd (getServerData w)"
| "apply_op (Evict_user k) w = userCache_delete k w"
| "apply_op (Evict_posts k) w = postsCache_delete k w"
| "apply_op Reset_serverData w = w\<lparr>serverDataCache := None\<rparr>"
| "apply_op (Elapse dt) w = advance dt w"

definition run_ops :: "fetch_op list \<Rightarrow> world \<Rightarrow> world" where
  "run_ops ops w = foldl (\<lambda>w' x. apply_op x w') w ops"

text \<open>
  The time that passes in a run.
\<close>

fun elapsed :: "fetch_op list \<Rightarrow> nat" where
  "elapsed [] = 0"
| "elapsed (Elapse dt # xs) = dt + elapsed xs"
| "elapsed (x # xs) = elapsed xs"

subsection \<open>Invariants used in the proofs\<close>

text \<open>
  The promises in \<open>P\<close> are untouched in a world when no queued microtask and no reaction
  waiting on a promise outside \<open>P\<close> would settle one of them.
\<close>

definition untouched :: "nat set \<Rightarrow> world \<Rightarrow> bool" where
  "untouched P w =
     ((\<forall>m \<in> set (microtasks w). reaction_target (fst m) \<notin> P)
      \<and> (\<forall>i < length (promises w). i \<notin> P \<longrightarrow>
            (\<forall>r \<in> set (stored_reactions (promises w ! i)). reaction_target r \<notin> P)))"

text \<open>
  No promise is rejected and no queued microtask carries a rejection.
\<close>

definition no_rejection :: "world \<Rightarrow> bool" where
  "no_rejection w =
     ((\<forall>st \<in> set (promises w). \<not> is_rejected st)
      \<and> (\<forall>m \<in> set (microtasks w). \<not> is_rejected (snd m)))"

text \<open>
  Well-formedness without the condition on the microtask queue, for the worlds inside a
  microtask checkpoint.
\<close>

definition handles_ok :: "world \<Rightarrow> bool" where
  "handles_ok w =
     ((\<forall>t \<in> set (timers w). callback_target (snd t) < length (promises w))
      \<and> (\<forall>st \<in> set (promises w). \<forall>r \<in> set (stored_reactions st).
            reaction_target r < length (promises w))
      \<and> (\<forall>e \<in> set (userCache w). snd e < length (promises w))
      \<and> (\<forall>e \<in> set (postsCache w). snd e < length (promises w))
      \<and> (\<forall>p. serverDataCache w = Some p \<longrightarrow> p < length (promises w)))"

text \<open>
  The promises in \<open>P\<close> wait for one timer: they are in the states \<open>sts\<close>, nothing but the
  timer \<open>(due, cb)\<close> will settle any of them, and that timer has not fired yet.
\<close>

definition awaiting :: "nat set \<Rightarrow> (nat \<Rightarrow> promise_state) \<Rightarrow> nat \<Rightarrow> callback \<Rightarrow> world \<Rightarrow> bool" where
  "awaiting P sts due cb w =
     (well_formed w \<and> (\<forall>x \<in> P. x < length (promises w) \<and> promises w ! x = sts x)
      \<and> untouched P w \<and> (due, cb) \<in> set (timers w) \<and> now w < due
      \<and> (\<forall>t \<in> set (timers w). callback_target (snd t) \<in> P \<longrightarrow> t = (due, cb)))"

section \<open>Properties of the caches and the fetch functions\<close>

lemma Map_get_set: "Map_get (Map_set m k v) k = Some v"
  by (simp add: Map_get_def Map_set_def update_conv')

lemma Map_has_get: "Map_has m k = (Map_get m k \<noteq> None)"
  by (simp add: Map_has_def Map_get_def)

lemma Map_has_delete: "\<not> Map_has (fst (Map_delete m k)) k"
  by (simp add: Map_has_def Map_delete_def delete_conv')

lemma Map_delete_absent: "\<not> Map_has m k \<Longrightarrow> Map_delete m k = (m, False)"
  by (simp add: Map_has_def Map_delete_def delete_id map_of_eq_None_iff)

lemma Map_get_set_other: "k' \<noteq> k \<Longrightarrow> Map_get (Map_set m k' v) k = Map_get m k"
  by (simp add: Map_get_def Map_set_def update_conv')

lemma Map_get_delete_other: "k' \<noteq> k \<Longrightarrow> Map_get (fst (Map_delete m k')) k = Map_get m k"
  by (simp add: Map_get_def Map_delete_def delete_conv')

lemma Map_get_in_set: "Map_get m k = Some v \<Longrightarrow> v \<in> snd ` set m"
  by (force simp: Map_get_def dest: map_of_SomeD)

lemma set_Map_set: "e \<in> set (Map_set m k v) \<Longrightarrow> e = (k, v) \<or> e \<in> set m"
  unfolding Map_set_def by (induction m) (auto split: if_splits)

lemma set_Map_delete: "e \<in> set (fst (Map_delete m k)) \<Longrightarrow> e \<in> set m"
  by (auto simp: Map_delete_def AList.delete_eq)

lemma fetchUser_eq:
  "fetchUser k w =
     (length (promises w),
      w\<lparr>promises := promises w @ [Pending []],
        timers := timers w @ [(now w + 1500, ResolveWith (length (promises w)) (UserV (user_payload k)))]\<rparr>)"
  by (simp add: fetchUser_def new_promise_def setTimeout_def)

lemma fetchPosts_eq:
  "fetchPosts k w =
     (length (promises w),
      w\<lparr>promises := promises w @ [Pending []],
        timers := timers w @ [(now w + 2000, ResolveWith (length (promises w)) (PostsV (posts_payload k)))]\<rparr>)"
  by (simp add: fetchPosts_def new_promise_def setTimeout_def)

lemma fetchServerData_eq:
  "fetchServerData w =
     (length (promises w),
      w\<lparr>promises := promises w @ [Pending [], Pending [ResumeFetchServerData (length (promises w))]],
        timers := timers w @ [(now w + 800, ResolveWith (Suc (length (promises w))) Undefined)]\<rparr>)"
  by (simp add: fetchServerData_def new_promise_def setTimeout_def subscribe_def nth_append)

lemma getUserPromise_miss:
  "\<not> Map_has (userCache w) k \<Longrightarrow>
   getUserPromise k w =
     (length (promises w),
      (snd (fetchUser k w))\<lparr>userCache := Map_set (userCache w) k (length (promises w))\<rparr>)"
  by (simp add: getUserPromise_def fetchUser_eq Map_get_set)

lemma getUserPromise_hit:
  "Map_has (userCache w) k \<Longrightarrow> getUserPromise k w = (the (Map_get (userCache w) k), w)"
  by (simp add: getUserPromise_def)

lemma getPostsPromise_miss:
  "\<not> Map_has (postsCache w) k \<Longrightarrow>
   getPostsPromise k w =
     (length (promises w),
      (snd (fetchPosts k w))\<lparr>postsCache := Map_set (postsCache w) k (length (promises w))\<rparr>)"
  by (simp add: getPostsPromise_def fetchPosts_eq Map_get_set)

lemma getPostsPromise_hit:
  "Map_has (postsCache w) k \<Longrightarrow> getPostsPromise k w = (the (Map_get (postsCache w) k), w)"
  by (simp add: getPostsPromise_def)

text \<open>The non-null assertion on \<^verbatim>\<open>userCache.get(id)\<close> is justified: the entry is there.\<close>

lemma getUserPromise_cached:
  "Map_get (userCache (snd (getUserPromise k w))) k = Some (fst (getUserPromise k w))"
  by (cases "Map_has (userCache w) k")
     (auto simp: getUserPromise_miss getUserPromise_hit Map_get_set Map_has_get)

lemma getPostsPromise_cached:
  "Map_get (postsCache (snd (getPostsPromise k w))) k = Some (fst (getPostsPromise k w))"
  by (cases "Map_has (postsCache w) k")
     (auto simp: getPostsPromise_miss getPostsPromise_hit Map_get_set Map_has_get)

lemma getUserPromise_timers:
  "length (timers (snd (getUserPromise k w))) \<le> Suc (length (timers w))"
  by (cases "Map_has (userCache w) k") (simp_all add: getUserPromise_miss getUserPromise_hit fetchUser_eq)

lemma getPostsPromise_timers:
  "length (timers (snd (getPostsPromise k w))) \<le> Suc (length (timers w))"
  by (cases "Map_has (postsCache w) k") (simp_all add: getPostsPromise_miss getPostsPromise_hit fetchPosts_eq)

lemma getUserPromise_snd:
  "snd (getUserPromise k w) = w
   \<or> snd (getUserPromise k w) =
       w\<lparr>promises := promises w @ [Pending []],
         timers := timers w @ [(now w + 1500, ResolveWith (length (promises w)) (UserV (user_payload k)))],
         userCache := Map_set (userCache w) k (length (promises w))\<rparr>"
  by (cases "Map_has (userCache w) k") (simp_all add: getUserPromise_miss getUserPromise_hit fetchUser_eq)

lemma getPostsPromise_snd:
  "snd (getPostsPromise k w) = w
   \<or> snd (getPostsPromise k w) =
       w\<lparr>promises := promises w @ [Pending []],
         timers := timers w @ [(now w + 2000, ResolveWith (length (promises w)) (PostsV (posts_payload k)))],
         postsCache := Map_set (postsCache w) k (length (promises w))\<rparr>"
  by (cases "Map_has (postsCache w) k") (simp_all add: getPostsPromise_miss getPostsPromise_hit fetchPosts_eq)

lemma getServerData_snd:
  "snd (getServerData w) = w
   \<or> snd (getServerData w) =
       w\<lparr>promises := promises w @ [Pending [], Pending [ResumeFetchServerData (length (promises w))]],
         timers := timers w @ [(now w + 800, ResolveWith (Suc (length (promises w))) Undefined)],
         serverDataCache := Some (length (promises w))\<rparr>"
  by (cases "serverDataCache w") (simp_all add: getServerData_def fetchServerData_eq)

lemma userCache_delete_fields [simp]:
  "promises (userCache_delete k w) = promises w" "timers (userCache_delete k w) = timers w"
  "now (userCache_delete k w) = now w" "postsCache (userCache_delete k w) = postsCache w"
  "microtasks (userCache_delete k w) = microtasks w"
  by (simp_all add: userCache_delete_def)

lemma postsCache_delete_fields [simp]:
  "promises (postsCache_delete k w) = promises w" "timers (postsCache_delete k w) = timers w"
  "now (postsCache_delete k w) = now w" "userCache (postsCache_delete k w) = userCache w"
  "microtasks (postsCache_delete k w) = microtasks w"
  by (simp_all add: postsCache_delete_def)

lemma userCache_delete_has: "\<not> Map_has (userCache (userCache_delete k w)) k"
  by (simp add: userCache_delete_def Map_has_delete)

lemma postsCache_delete_has: "\<not> Map_has (postsCache (postsCache_delete k w)) k"
  by (simp add: postsCache_delete_def Map_has_delete)

lemma evict_user_lookup:
  "getUserPromise k (userCache_delete k w) =
     (length (promises w),
      (userCache_delete k w)
        \<lparr>promises := promises w @ [Pending []],
         timers := timers w @ [(now w + 1500, ResolveWith (length (promises w)) (UserV (user_payload k)))],
         userCache := Map_set (userCache (userCache_delete k w)) k (length (promises w))\<rparr>)"
  by (simp add: getUserPromise_miss [OF userCache_delete_has] fetchUser_eq)

lemma evict_posts_lookup:
  "getPostsPromise k (postsCache_delete k w) =
     (length (promises w),
      (postsCache_delete k w)
        \<lparr>promises := promises w @ [Pending []],
         timers := timers w @ [(now w + 2000, ResolveWith (length (promises w)) (PostsV (posts_payload k)))],
         postsCache := Map_set (postsCache (postsCache_delete k w)) k (length (promises w))\<rparr>)"
  by (simp add: getPostsPromise_miss [OF postsCache_delete_has] fetchPosts_eq)

lemma handleChangeUser_eq:
  "handleChangeUser u w = (u + 1, postsCache_delete (u + 1) (userCache_delete (u + 1) w))"
  by (simp add: handleChangeUser_def Let_def)

lemma userCache_posts_delete_commute:
  "postsCache_delete k (userCache_delete k' w) = userCache_delete k' (postsCache_delete k w)"
  by (simp add: postsCache_delete_def userCache_delete_def)

lemma getUserPromise_init: "getUserPromise 1 init_world =
  (0, \<lparr>now = 0, promises = [Pending []],
       timers = [(1500, ResolveWith 0 (UserV (user_payload 1)))], microtasks = [],
       userCache = [(1, 0)], postsCache = [], serverDataCache = None\<rparr>)"
  by (simp add: getUserPromise_miss Map_has_def Map_set_def fetchUser_eq init_world_def)

lemma init_caches_empty:
  "\<not> Map_has (userCache init_world) 1" "\<not> Map_has (postsCache init_world) 1"
  "timers init_world = []" "now init_world = 0" "promises init_world = []"
  by (simp_all add: init_world_def Map_has_def)

section \<open>Properties of the runtime\<close>

subsection \<open>The microtask checkpoint\<close>

lemma drain_Nil: "microtasks w = [] \<Longrightarrow> drain w = w"
  by (subst drain.simps) simp

lemma drain_Cons:
  "microtasks w = m # ms \<Longrightarrow> drain w = drain (run_microtask m (w\<lparr>microtasks := ms\<rparr>))"
  by (subst drain.simps) simp

subsection \<open>Settling changes one promise, once\<close>

lemma settle_length [simp]: "length (promises (settle p st w)) = length (promises w)"
  by (simp add: settle_def split: promise_state.splits)

lemma settle_frame [simp]:
  "timers (settle p st w) = timers w" "now (settle p st w) = now w"
  "userCache (settle p st w) = userCache w" "postsCache (settle p st w) = postsCache w"
  "serverDataCache (settle p st w) = serverDataCache w"
  by (simp_all add: settle_def split: promise_state.splits)

lemma settle_other: "p' \<noteq> p \<Longrightarrow> promises (settle p st w) ! p' = promises w ! p'"
  by (simp add: settle_def split: promise_state.splits)

lemma settle_settled:
  "\<not> is_pending (promises w ! p') \<Longrightarrow> promises (settle p st w) ! p' = promises w ! p'"
  by (cases "p' = p") (auto simp: settle_def split: promise_state.splits)

lemma settle_pending:
  "p < length (promises w) \<Longrightarrow> promises w ! p = Pending rs \<Longrightarrow>
   settle p st w = w\<lparr>promises := (promises w)[p := st],
                      microtasks := microtasks w @ map (\<lambda>r. (r, st)) rs\<rparr>"
  by (simp add: settle_def)

lemma run_microtask_length [simp]:
  "length (promises (run_microtask m w)) = length (promises w)"
  by (cases "(m, w)" rule: run_microtask.cases) (simp_all add: resolve_def reject_def)

lemma run_microtask_frame [simp]:
  "timers (run_microtask m w) = timers w" "now (run_microtask m w) = now w"
  "userCache (run_microtask m w) = userCache w" "postsCache (run_microtask m w) = postsCache w"
  "serverDataCache (run_microtask m w) = serverDataCache w"
  by (cases "(m, w)" rule: run_microtask.cases; simp add: resolve_def reject_def)+

lemma run_microtask_settled:
  "\<not> is_pending (promises w ! p') \<Longrightarrow> promises (run_microtask m w) ! p' = promises w ! p'"
  by (cases "(m, w)" rule: run_microtask.cases) (simp_all add: resolve_def reject_def settle_settled)

lemma drain_length [simp]: "length (promises (drain w)) = length (promises w)"
proof (induction w rule: drain.induct)
  case (1 w)
  show ?case
  proof (cases "microtasks w")
    case Nil
    then show ?thesis by (simp add: drain_Nil)
  next
    case (Cons m ms)
    with "1.IH" [OF Cons] show ?thesis by (simp add: drain_Cons)
  qed
qed

lemma drain_frame [simp]:
  "timers (drain w) = timers w \<and> now (drain w) = now w
   \<and> userCache (drain w) = userCache w \<and> postsCache (drain w) = postsCache w
   \<and> serverDataCache (drain w) = serverDataCache w"
proof (induction w rule: drain.induct)
  case (1 w)
  show ?case
  proof (cases "microtasks w")
    case Nil
    then show ?thesis by (simp add: drain_Nil)
  next
    case (Cons m ms)
    with "1.IH" [OF Cons] show ?thesis by (simp add: drain_Cons)
  qed
qed

lemma drain_microtasks [simp]: "microtasks (drain w) = []"
proof (induction w rule: drain.induct)
  case (1 w)
  show ?case
  proof (cases "microtasks w")
    case Nil
    then show ?thesis by (simp add: drain_Nil)
  next
    case (Cons m ms)
    with "1.IH" [OF Cons] show ?thesis by (simp add: drain_Cons)
  qed
qed

lemma drain_settled:
  "\<not> is_pending (promises w ! p') \<Longrightarrow> promises (drain w) ! p' = promises w ! p'"
proof (induction w rule: drain.induct)
  case (1 w)
  show ?case
  proof (cases "microtasks w")
    case Nil
    then show ?thesis by (simp add: drain_Nil)
  next
    case (Cons m ms)
    let ?w = "run_microtask m (w\<lparr>microtasks := ms\<rparr>)"
    have eq: "promises ?w ! p' = promises w ! p'"
      using "1.prems" by (simp add: run_microtask_settled)
    with "1.prems" have "\<not> is_pending (promises ?w ! p')" by simp
    from "1.IH" [OF Cons this] eq Cons show ?thesis by (simp add: drain_Cons)
  qed
qed

lemma run_task_length [simp]: "length (promises (run_task cb w)) = length (promises w)"
  by (cases cb) (simp add: run_task_def resolve_def)

lemma run_task_microtasks [simp]: "microtasks (run_task cb w) = []"
  by (simp add: run_task_def)

lemma run_task_frame [simp]:
  "timers (run_task cb w) = timers w" "now (run_task cb w) = now w"
  "userCache (run_task cb w) = userCache w" "postsCache (run_task cb w) = postsCache w"
  "serverDataCache (run_task cb w) = serverDataCache w"
  by (cases cb; simp add: run_task_def resolve_def)+

lemma run_task_settled:
  "\<not> is_pending (promises w ! p') \<Longrightarrow> promises (run_task cb w) ! p' = promises w ! p'"
  by (cases cb) (simp add: run_task_def resolve_def drain_settled settle_settled)

lemma run_tasks_Nil [simp]: "run_tasks [] w = w"
  by (simp add: run_tasks_def)

lemma run_tasks_Cons [simp]: "run_tasks (t # ts) w = run_tasks ts (run_task (snd t) w)"
  by (simp add: run_tasks_def)

lemma run_tasks_length [simp]: "length (promises (run_tasks ts w)) = length (promises w)"
  by (induction ts arbitrary: w) simp_all

lemma run_tasks_frame [simp]:
  "timers (run_tasks ts w) = timers w \<and> now (run_tasks ts w) = now w
   \<and> userCache (run_tasks ts w) = userCache w \<and> postsCache (run_tasks ts w) = postsCache w
   \<and> serverDataCache (run_tasks ts w) = serverDataCache w"
  by (induction ts arbitrary: w) simp_all

lemma run_tasks_settled:
  "\<not> is_pending (promises w ! p') \<Longrightarrow> promises (run_tasks ts w) ! p' = promises w ! p'"
proof (induction ts arbitrary: w)
  case Nil
  show ?case by simp
next
  case (Cons t ts)
  have eq: "promises (run_task (snd t) w) ! p' = promises w ! p'"
    using Cons.prems by (rule run_task_settled)
  with Cons.prems have "\<not> is_pending (promises (run_task (snd t) w) ! p')" by simp
  from Cons.IH [OF this] eq show ?case by simp
qed

lemma advance_eq:
  "advance dt w =
     run_tasks (sort_key fst (filter (\<lambda>x. fst x \<le> now w + dt) (timers w)))
       (w\<lparr>now := now w + dt, timers := filter (\<lambda>x. \<not> fst x \<le> now w + dt) (timers w)\<rparr>)"
  by (simp add: advance_def Let_def)

lemma advance_frame [simp]:
  "now (advance dt w) = now w + dt"
  "timers (advance dt w) = filter (\<lambda>x. \<not> fst x \<le> now w + dt) (timers w)"
  "userCache (advance dt w) = userCache w" "postsCache (advance dt w) = postsCache w"
  "serverDataCache (advance dt w) = serverDataCache w"
  "length (promises (advance dt w)) = length (promises w)"
  by (simp_all add: advance_eq)

lemma advance_settled:
  "\<not> is_pending (promises w ! p) \<Longrightarrow> promises (advance dt w) ! p = promises w ! p"
  by (simp add: advance_eq run_tasks_settled)

subsection \<open>Promises nothing else refers to\<close>

lemma settle_untouched:
  assumes "untouched P w" and "p \<notin> P" and "stored_reactions st = []"
  shows "untouched P (settle p st w)"
proof (cases "p < length (promises w) \<and> is_pending (promises w ! p)")
  case False
  then have "settle p st w = w"
    by (cases "promises w ! p") (auto simp: settle_def)
  with assms show ?thesis by simp
next
  case True
  then obtain rs where rs: "promises w ! p = Pending rs" and lt: "p < length (promises w)"
    by (cases "promises w ! p") auto
  from assms(1,2) lt rs have targets: "\<forall>r \<in> set rs. reaction_target r \<notin> P"
    by (auto simp: untouched_def)
  show ?thesis
    unfolding settle_pending [OF lt rs] untouched_def
  proof (intro conjI allI impI ballI)
    fix m assume "m \<in> set (microtasks (w\<lparr>promises := (promises w)[p := st],
        microtasks := microtasks w @ map (\<lambda>r. (r, st)) rs\<rparr>))"
    with assms(1) targets show "reaction_target (fst m) \<notin> P"
      by (auto simp: untouched_def)
  next
    fix i r
    assume i: "i < length (promises (w\<lparr>promises := (promises w)[p := st],
        microtasks := microtasks w @ map (\<lambda>r. (r, st)) rs\<rparr>))" "i \<notin> P"
      and r: "r \<in> set (stored_reactions (promises (w\<lparr>promises := (promises w)[p := st],
        microtasks := microtasks w @ map (\<lambda>r. (r, st)) rs\<rparr>) ! i))"
    show "reaction_target r \<notin> P"
    proof (cases "i = p")
      case True
      with r lt assms(3) show ?thesis by simp
    next
      case False
      with i r assms(1) show ?thesis by (auto simp: untouched_def)
    qed
  qed
qed

lemma settle_keeps:
  "p \<notin> P \<Longrightarrow> x \<in> P \<Longrightarrow> promises (settle p st w) ! x = promises w ! x"
  by (rule settle_other) auto

lemma untouched_pop:
  "untouched P w \<Longrightarrow> microtasks w = m # ms \<Longrightarrow>
   untouched P (w\<lparr>microtasks := ms\<rparr>) \<and> reaction_target (fst m) \<notin> P"
  by (auto simp: untouched_def)

lemma run_microtask_untouched:
  assumes "untouched P w" and "reaction_target (fst m) \<notin> P"
  shows "untouched P (run_microtask m w) \<and> (\<forall>x \<in> P. promises (run_microtask m w) ! x = promises w ! x)"
proof (cases "(m, w)" rule: run_microtask.cases)
  case (1 outer v w')
  with assms show ?thesis
    by (auto simp: resolve_def settle_untouched settle_keeps)
next
  case (2 outer e w')
  with assms show ?thesis
    by (auto simp: reject_def settle_untouched settle_keeps)
next
  case (3 outer rs w')
  with assms show ?thesis by simp
qed

lemma drain_untouched:
  "untouched P w \<Longrightarrow>
   untouched P (drain w) \<and> (\<forall>x \<in> P. promises (drain w) ! x = promises w ! x)"
proof (induction w rule: drain.induct)
  case (1 w)
  show ?case
  proof (cases "microtasks w")
    case Nil
    with "1.prems" show ?thesis by (simp add: drain_Nil)
  next
    case (Cons m ms)
    let ?w0 = "w\<lparr>microtasks := ms\<rparr>"
    let ?w1 = "run_microtask m ?w0"
    from untouched_pop [OF "1.prems" Cons]
    have u0: "untouched P ?w0" and tgt: "reaction_target (fst m) \<notin> P" by simp_all
    from run_microtask_untouched [OF u0 tgt]
    have u1: "untouched P ?w1" and keep: "\<forall>x \<in> P. promises ?w1 ! x = promises w ! x"
      by simp_all
    from "1.IH" [OF Cons u1] keep Cons show ?thesis by (simp add: drain_Cons)
  qed
qed

lemma run_task_untouched:
  assumes "untouched P w" and "callback_target cb \<notin> P"
  shows "untouched P (run_task cb w) \<and> (\<forall>x \<in> P. promises (run_task cb w) ! x = promises w ! x)"
proof (cases cb)
  case (ResolveWith p v)
  with assms(2) have p: "p \<notin> P" by simp
  have u: "untouched P (resolve p v w)"
    unfolding resolve_def using assms(1) p by (rule settle_untouched) simp
  have keep: "\<forall>x \<in> P. promises (resolve p v w) ! x = promises w ! x"
    using p by (auto simp: resolve_def settle_keeps)
  from drain_untouched [OF u] keep ResolveWith show ?thesis
    by (simp add: run_task_def)
qed

lemma run_tasks_untouched:
  assumes "untouched P w" and "\<forall>t \<in> set ts. callback_target (snd t) \<notin> P"
  shows "untouched P (run_tasks ts w) \<and> (\<forall>x \<in> P. promises (run_tasks ts w) ! x = promises w ! x)"
  using assms
proof (induction ts arbitrary: w)
  case Nil
  then show ?case by simp
next
  case (Cons t ts)
  from Cons.prems(2) have "callback_target (snd t) \<notin> P" by simp
  from run_task_untouched [OF Cons.prems(1) this]
  have u: "untouched P (run_task (snd t) w)"
    and keep: "\<forall>x \<in> P. promises (run_task (snd t) w) ! x = promises w ! x" by simp_all
  from Cons.IH [OF u] Cons.prems(2) keep show ?case by simp
qed

lemma untouched_extends:
  assumes "untouched P w" and "\<forall>x \<in> P. x < length (promises w)"
    and "promises w' = promises w @ new" and "microtasks w' = microtasks w"
    and "\<forall>st \<in> set new. \<forall>r \<in> set (stored_reactions st). length (promises w) \<le> reaction_target r"
  shows "untouched P w'"
  unfolding untouched_def
proof (intro conjI allI impI ballI)
  fix m assume "m \<in> set (microtasks w')"
  with assms(1,4) show "reaction_target (fst m) \<notin> P" by (simp add: untouched_def)
next
  fix i r
  assume i: "i < length (promises w')" "i \<notin> P" and r: "r \<in> set (stored_reactions (promises w' ! i))"
  show "reaction_target r \<notin> P"
  proof (cases "i < length (promises w)")
    case True
    with r assms(3) have "r \<in> set (stored_reactions (promises w ! i))" by (simp add: nth_append)
    with assms(1) True i(2) show ?thesis by (auto simp: untouched_def)
  next
    case False
    with i(1) assms(3) have "promises w' ! i \<in> set new"
      by (simp add: nth_append)
    with r assms(5) have "length (promises w) \<le> reaction_target r" by blast
    with assms(2) show ?thesis by auto
  qed
qed

subsection \<open>A timer promise is fulfilled by its timer, and by nothing else\<close>

lemma run_task_resolves:
  assumes "p < length (promises w)" and "promises w ! p = Pending []" and "microtasks w = []"
  shows "promises (run_task (ResolveWith p v) w) ! p = Fulfilled v"
proof -
  have "resolve p v w = w\<lparr>promises := (promises w)[p := Fulfilled v], microtasks := []\<rparr>"
    using assms by (simp add: resolve_def settle_pending)
  with assms(1) show ?thesis by (simp add: run_task_def drain_Nil)
qed

lemma run_tasks_timer_promise:
  assumes "p < length (promises w)" and "promises w ! p = Pending []"
    and "untouched {p} w" and "microtasks w = []"
    and "\<forall>t \<in> set ts. callback_target (snd t) = p \<longrightarrow> snd t = ResolveWith p v"
  shows "promises (run_tasks ts w) ! p =
           (if \<exists>t \<in> set ts. callback_target (snd t) = p then Fulfilled v else Pending [])"
  using assms
proof (induction ts arbitrary: w)
  case Nil
  then show ?case by simp
next
  case (Cons t ts)
  show ?case
  proof (cases "callback_target (snd t) = p")
    case True
    with Cons.prems(5) have t: "snd t = ResolveWith p v" by simp
    have "promises (run_task (snd t) w) ! p = Fulfilled v"
      unfolding t using Cons.prems(1,2,4) by (rule run_task_resolves)
    then have "promises (run_tasks ts (run_task (snd t) w)) ! p = Fulfilled v"
      by (simp add: run_tasks_settled)
    with True show ?thesis by simp
  next
    case False
    let ?w = "run_task (snd t) w"
    from False have "callback_target (snd t) \<notin> {p}" by simp
    from run_task_untouched [OF Cons.prems(3) this]
    have u: "untouched {p} ?w" and keep: "promises ?w ! p = promises w ! p" by simp_all
    have "promises (run_tasks ts ?w) ! p =
            (if \<exists>t \<in> set ts. callback_target (snd t) = p then Fulfilled v else Pending [])"
      using Cons.prems(1,2,5) u keep by (intro Cons.IH) simp_all
    with False show ?thesis by simp
  qed
qed

text \<open>The same for the pair of promises of \<^verbatim>\<open>fetchServerData\<close>.\<close>

lemma run_task_resumes:
  assumes "p < length (promises w)" and "q < length (promises w)" and "p \<noteq> q"
    and "promises w ! p = Pending []" and "promises w ! q = Pending [ResumeFetchServerData p]"
    and "microtasks w = []"
  shows "promises (run_task (ResolveWith q Undefined) w) ! p = Fulfilled (ServerDataV server_products)"
proof -
  let ?w1 = "w\<lparr>promises := (promises w)[q := Fulfilled Undefined],
                microtasks := [(ResumeFetchServerData p, Fulfilled Undefined)]\<rparr>"
  let ?w2 = "?w1\<lparr>microtasks := []\<rparr>"
  have r: "resolve q Undefined w = ?w1"
    using assms by (simp add: resolve_def settle_pending)
  have p2: "promises ?w2 ! p = Pending []" and l2: "p < length (promises ?w2)"
    using assms by simp_all
  have "run_microtask (ResumeFetchServerData p, Fulfilled Undefined) ?w2
          = ?w2\<lparr>promises := (promises ?w2)[p := Fulfilled (ServerDataV server_products)],
                 microtasks := []\<rparr>"
    using settle_pending [OF l2 p2] by (simp add: resolve_def)
  then have "drain ?w1 = ?w2\<lparr>promises := (promises ?w2)[p := Fulfilled (ServerDataV server_products)],
                 microtasks := []\<rparr>"
    by (simp add: drain_Cons [of ?w1 "(ResumeFetchServerData p, Fulfilled Undefined)" "[]"] drain_Nil)
  with r assms(1) show ?thesis by (simp add: run_task_def)
qed

lemma run_tasks_async_promise:
  assumes "p < length (promises w)" and "q < length (promises w)" and "p \<noteq> q"
    and "promises w ! p = Pending []" and "promises w ! q = Pending [ResumeFetchServerData p]"
    and "untouched {p, q} w" and "microtasks w = []"
    and "\<forall>t \<in> set ts. callback_target (snd t) \<in> {p, q} \<longrightarrow> snd t = ResolveWith q Undefined"
  shows "promises (run_tasks ts w) ! p =
           (if \<exists>t \<in> set ts. callback_target (snd t) = q
            then Fulfilled (ServerDataV server_products) else Pending [])"
  using assms
proof (induction ts arbitrary: w)
  case Nil
  then show ?case by simp
next
  case (Cons t ts)
  show ?case
  proof (cases "callback_target (snd t) \<in> {p, q}")
    case True
    with Cons.prems(8) have t: "snd t = ResolveWith q Undefined" by auto
    have "promises (run_task (snd t) w) ! p = Fulfilled (ServerDataV server_products)"
      unfolding t using Cons.prems(1-5,7) by (rule run_task_resumes)
    then have "promises (run_tasks ts (run_task (snd t) w)) ! p = Fulfilled (ServerDataV server_products)"
      by (simp add: run_tasks_settled)
    with t show ?thesis by simp
  next
    case False
    let ?w = "run_task (snd t) w"
    from run_task_untouched [OF Cons.prems(6) False]
    have u: "untouched {p, q} ?w" and keep: "promises ?w ! p = promises w ! p"
      "promises ?w ! q = promises w ! q" by simp_all
    have "promises (run_tasks ts ?w) ! p =
            (if \<exists>t \<in> set ts. callback_target (snd t) = q
             then Fulfilled (ServerDataV server_products) else Pending [])"
      using Cons.prems(1-5,8) u keep by (intro Cons.IH) simp_all
    with False show ?thesis by auto
  qed
qed

subsection \<open>No operation of the fetch layer rejects a promise\<close>

lemma settle_no_rejection:
  assumes "no_rejection w" and "\<not> is_rejected st"
  shows "no_rejection (settle p st w)"
proof (cases "p < length (promises w) \<and> is_pending (promises w ! p)")
  case False
  then have "settle p st w = w"
    by (cases "promises w ! p") (auto simp: settle_def)
  with assms show ?thesis by simp
next
  case True
  then obtain rs where rs: "promises w ! p = Pending rs" and lt: "p < length (promises w)"
    by (cases "promises w ! p") auto
  have "set ((promises w)[p := st]) \<subseteq> insert st (set (promises w))"
    by (rule set_update_subset_insert)
  with assms show ?thesis
    unfolding settle_pending [OF lt rs] no_rejection_def by auto
qed

lemma run_microtask_no_rejection:
  assumes "no_rejection w" and "\<not> is_rejected (snd m)"
  shows "no_rejection (run_microtask m w)"
  using assms
  by (cases "(m, w)" rule: run_microtask.cases) (simp_all add: resolve_def settle_no_rejection)

lemma drain_no_rejection: "no_rejection w \<Longrightarrow> no_rejection (drain w)"
proof (induction w rule: drain.induct)
  case (1 w)
  show ?case
  proof (cases "microtasks w")
    case Nil
    with "1.prems" show ?thesis by (simp add: drain_Nil)
  next
    case (Cons m ms)
    from "1.prems" Cons have "no_rejection (w\<lparr>microtasks := ms\<rparr>)" and "\<not> is_rejected (snd m)"
      by (simp_all add: no_rejection_def)
    then have "no_rejection (run_microtask m (w\<lparr>microtasks := ms\<rparr>))"
      by (rule run_microtask_no_rejection)
    from "1.IH" [OF Cons this] Cons show ?thesis by (simp add: drain_Cons)
  qed
qed

lemma run_task_no_rejection: "no_rejection w \<Longrightarrow> no_rejection (run_task cb w)"
  by (cases cb) (simp add: run_task_def resolve_def drain_no_rejection settle_no_rejection)

lemma run_tasks_no_rejection: "no_rejection w \<Longrightarrow> no_rejection (run_tasks ts w)"
  by (induction ts arbitrary: w) (simp_all add: run_task_no_rejection)

lemma advance_no_rejection: "no_rejection w \<Longrightarrow> no_rejection (advance dt w)"
  unfolding advance_eq by (rule run_tasks_no_rejection) (simp add: no_rejection_def)

lemma apply_op_no_rejection: "no_rejection w \<Longrightarrow> no_rejection (apply_op x w)"
proof (cases x)
  case (Get_user k)
  assume "no_rejection w"
  with getUserPromise_snd [of k w] Get_user show ?thesis by (auto simp: no_rejection_def)
next
  case (Get_posts k)
  assume "no_rejection w"
  with getPostsPromise_snd [of k w] Get_posts show ?thesis by (auto simp: no_rejection_def)
next
  case Get_serverData
  assume "no_rejection w"
  with getServerData_snd [of w] Get_serverData show ?thesis by (auto simp: no_rejection_def)
next
  case (Evict_user k)
  assume "no_rejection w"
  with Evict_user show ?thesis by (simp add: no_rejection_def userCache_delete_def)
next
  case (Evict_posts k)
  assume "no_rejection w"
  with Evict_posts show ?thesis by (simp add: no_rejection_def postsCache_delete_def)
next
  case Reset_serverData
  assume "no_rejection w"
  with Reset_serverData show ?thesis by (simp add: no_rejection_def)
next
  case (Elapse dt)
  assume "no_rejection w"
  with Elapse show ?thesis by (simp add: advance_no_rejection)
qed

lemma run_ops_Nil [simp]: "run_ops [] w = w"
  by (simp add: run_ops_def)

lemma run_ops_Cons [simp]: "run_ops (x # xs) w = run_ops xs (apply_op x w)"
  by (simp add: run_ops_def)

lemma run_ops_no_rejection: "no_rejection w \<Longrightarrow> no_rejection (run_ops ops w)"
  by (induction ops arbitrary: w) (simp_all add: apply_op_no_rejection)

lemma init_no_rejection: "no_rejection init_world"
  by (simp add: no_rejection_def init_world_def)

lemma never_rejected:
  "list_all (\<lambda>st. \<not> is_rejected st) (promises (run_ops ops init_world))"
  using run_ops_no_rejection [OF init_no_rejection, of ops]
  by (simp add: no_rejection_def list_all_iff)

subsection \<open>Every reachable world is well formed\<close>

lemma well_formed_timers:
  "well_formed w \<Longrightarrow> t \<in> set (timers w) \<Longrightarrow> callback_target (snd t) < length (promises w)"
  by (auto simp: well_formed_def list_all_iff)

lemma well_formed_reactions:
  "well_formed w \<Longrightarrow> i < length (promises w) \<Longrightarrow> r \<in> set (stored_reactions (promises w ! i))
   \<Longrightarrow> reaction_target r < length (promises w)"
  by (auto simp: well_formed_def list_all_iff)

lemma well_formed_microtasks: "well_formed w \<Longrightarrow> microtasks w = []"
  by (simp add: well_formed_def)

lemma well_formed_caches:
  "well_formed w \<Longrightarrow> e \<in> set (userCache w) \<Longrightarrow> snd e < length (promises w)"
  "well_formed w \<Longrightarrow> e \<in> set (postsCache w) \<Longrightarrow> snd e < length (promises w)"
  "well_formed w \<Longrightarrow> serverDataCache w = Some p \<Longrightarrow> p < length (promises w)"
  by (auto simp: well_formed_def list_all_iff)

lemma well_formed_iff: "well_formed w = (handles_ok w \<and> microtasks w = [])"
  by (cases "serverDataCache w") (auto simp: well_formed_def handles_ok_def list_all_iff)

lemma settle_handles_ok:
  assumes "handles_ok w" and "stored_reactions st = []"
  shows "handles_ok (settle p st w)"
proof -
  have "set ((promises w)[p := st]) \<subseteq> insert st (set (promises w))"
    by (rule set_update_subset_insert)
  with assms show ?thesis
    by (auto simp: handles_ok_def settle_def split: promise_state.splits)
qed

lemma run_microtask_handles_ok: "handles_ok w \<Longrightarrow> handles_ok (run_microtask m w)"
  by (cases "(m, w)" rule: run_microtask.cases)
     (simp_all add: resolve_def reject_def settle_handles_ok)

lemma handles_ok_microtasks [simp]: "handles_ok (w\<lparr>microtasks := ms\<rparr>) = handles_ok w"
  by (simp add: handles_ok_def)

lemma drain_handles_ok: "handles_ok w \<Longrightarrow> handles_ok (drain w)"
proof (induction w rule: drain.induct)
  case (1 w)
  show ?case
  proof (cases "microtasks w")
    case Nil
    with "1.prems" show ?thesis by (simp add: drain_Nil)
  next
    case (Cons m ms)
    from "1.prems" have "handles_ok (run_microtask m (w\<lparr>microtasks := ms\<rparr>))"
      by (simp add: run_microtask_handles_ok)
    from "1.IH" [OF Cons this] Cons show ?thesis by (simp add: drain_Cons)
  qed
qed

lemma run_task_handles_ok: "handles_ok w \<Longrightarrow> handles_ok (run_task cb w)"
  by (cases cb) (simp add: run_task_def resolve_def drain_handles_ok settle_handles_ok)

lemma run_tasks_well_formed: "well_formed w \<Longrightarrow> well_formed (run_tasks ts w)"
  by (induction ts arbitrary: w) (simp_all add: well_formed_iff run_task_handles_ok)

lemma advance_well_formed: "well_formed w \<Longrightarrow> well_formed (advance dt w)"
  unfolding advance_eq
  by (rule run_tasks_well_formed) (auto simp: well_formed_iff handles_ok_def)

lemma apply_op_well_formed: "well_formed w \<Longrightarrow> well_formed (apply_op x w)"
proof (cases x)
  case (Get_user k)
  assume "well_formed w"
  with getUserPromise_snd [of k w] Get_user show ?thesis
    by (fastforce simp: well_formed_iff handles_ok_def less_Suc_eq dest: set_Map_set)
next
  case (Get_posts k)
  assume "well_formed w"
  with getPostsPromise_snd [of k w] Get_posts show ?thesis
    by (fastforce simp: well_formed_iff handles_ok_def less_Suc_eq dest: set_Map_set)
next
  case Get_serverData
  assume "well_formed w"
  with getServerData_snd [of w] Get_serverData show ?thesis
    by (fastforce simp: well_formed_iff handles_ok_def less_Suc_eq)
next
  case (Evict_user k)
  assume "well_formed w"
  with Evict_user show ?thesis
    by (auto simp: well_formed_iff handles_ok_def userCache_delete_def dest: set_Map_delete)
next
  case (Evict_posts k)
  assume "well_formed w"
  with Evict_posts show ?thesis
    by (auto simp: well_formed_iff handles_ok_def postsCache_delete_def dest: set_Map_delete)
next
  case Reset_serverData
  assume "well_formed w"
  with Reset_serverData show ?thesis by (simp add: well_formed_iff handles_ok_def)
next
  case (Elapse dt)
  assume "well_formed w"
  with Elapse show ?thesis by (simp add: advance_well_formed)
qed

lemma init_well_formed: "well_formed init_world"
  by (simp add: well_formed_def init_world_def)

lemma run_ops_well_formed: "well_formed w \<Longrightarrow> well_formed (run_ops ops w)"
  by (induction ops arbitrary: w) (simp_all add: apply_op_well_formed)

lemma well_formed_after_first: "well_formed (snd (getUserPromise 1 init_world))"
  using apply_op_well_formed [OF init_well_formed, of "Get_user 1"] by simp

lemma cached_user_allocated:
  "well_formed w \<Longrightarrow> length (promises w) \<notin> snd ` set (userCache w)"
  by (auto dest: well_formed_caches(1))

lemma cached_posts_allocated:
  "well_formed w \<Longrightarrow> length (promises w) \<notin> snd ` set (postsCache w)"
  by (auto dest: well_formed_caches(2))

subsection \<open>Operations between a fetch and its timer\<close>

text \<open>A lookup either changes nothing or appends: promises, a timer, a cache entry.\<close>

lemma apply_op_extends:
  assumes "\<forall>dt. x \<noteq> Elapse dt"
  shows "\<exists>new nt. promises (apply_op x w) = promises w @ new
           \<and> timers (apply_op x w) = timers w @ nt
           \<and> (\<forall>st \<in> set new. \<forall>r \<in> set (stored_reactions st). length (promises w) \<le> reaction_target r)
           \<and> (\<forall>t \<in> set nt. length (promises w) \<le> callback_target (snd t))
           \<and> microtasks (apply_op x w) = microtasks w \<and> now (apply_op x w) = now w"
proof (cases x)
  case (Get_user k)
  from getUserPromise_snd [of k w] show ?thesis
  proof
    assume "snd (getUserPromise k w) = w"
    with Get_user show ?thesis by (intro exI [of _ "[]"]) simp
  next
    assume e: "snd (getUserPromise k w) =
       w\<lparr>promises := promises w @ [Pending []],
         timers := timers w @ [(now w + 1500, ResolveWith (length (promises w)) (UserV (user_payload k)))],
         userCache := Map_set (userCache w) k (length (promises w))\<rparr>"
    show ?thesis
      by (rule exI [of _ "[Pending []]"],
          rule exI [of _ "[(now w + 1500, ResolveWith (length (promises w)) (UserV (user_payload k)))]"])
         (simp add: Get_user e)
  qed
next
  case (Get_posts k)
  from getPostsPromise_snd [of k w] show ?thesis
  proof
    assume "snd (getPostsPromise k w) = w"
    with Get_posts show ?thesis by (intro exI [of _ "[]"]) simp
  next
    assume e: "snd (getPostsPromise k w) =
       w\<lparr>promises := promises w @ [Pending []],
         timers := timers w @ [(now w + 2000, ResolveWith (length (promises w)) (PostsV (posts_payload k)))],
         postsCache := Map_set (postsCache w) k (length (promises w))\<rparr>"
    show ?thesis
      by (rule exI [of _ "[Pending []]"],
          rule exI [of _ "[(now w + 2000, ResolveWith (length (promises w)) (PostsV (posts_payload k)))]"])
         (simp add: Get_posts e)
  qed
next
  case Get_serverData
  from getServerData_snd [of w] show ?thesis
  proof
    assume "snd (getServerData w) = w"
    with Get_serverData show ?thesis by (intro exI [of _ "[]"]) simp
  next
    assume e: "snd (getServerData w) =
       w\<lparr>promises := promises w @ [Pending [], Pending [ResumeFetchServerData (length (promises w))]],
         timers := timers w @ [(now w + 800, ResolveWith (Suc (length (promises w))) Undefined)],
         serverDataCache := Some (length (promises w))\<rparr>"
    show ?thesis
      by (rule exI [of _ "[Pending [], Pending [ResumeFetchServerData (length (promises w))]]"],
          rule exI [of _ "[(now w + 800, ResolveWith (Suc (length (promises w))) Undefined)]"])
         (simp add: Get_serverData e)
  qed
next
  case (Evict_user k)
  then show ?thesis by (intro exI [of _ "[]"]) (simp add: userCache_delete_def)
next
  case (Evict_posts k)
  then show ?thesis by (intro exI [of _ "[]"]) (simp add: postsCache_delete_def)
next
  case Reset_serverData
  then show ?thesis by (intro exI [of _ "[]"]) simp
next
  case (Elapse dt)
  with assms show ?thesis by simp
qed

lemma apply_op_awaiting:
  assumes "awaiting P sts due cb w" and "\<forall>dt. x \<noteq> Elapse dt"
  shows "awaiting P sts due cb (apply_op x w)"
proof -
  from apply_op_extends [OF assms(2), of w] obtain new nt where
    pr: "promises (apply_op x w) = promises w @ new"
    and ti: "timers (apply_op x w) = timers w @ nt"
    and re: "\<forall>st \<in> set new. \<forall>r \<in> set (stored_reactions st). length (promises w) \<le> reaction_target r"
    and ta: "\<forall>t \<in> set nt. length (promises w) \<le> callback_target (snd t)"
    and mi: "microtasks (apply_op x w) = microtasks w" and no: "now (apply_op x w) = now w"
    by blast
  from assms(1) have wf: "well_formed w" and lt: "\<forall>x \<in> P. x < length (promises w)"
    and un: "untouched P w" by (simp_all add: awaiting_def)
  have "untouched P (apply_op x w)"
    using un lt pr mi re by (rule untouched_extends)
  moreover have "well_formed (apply_op x w)"
    using wf by (rule apply_op_well_formed)
  moreover have "callback_target (snd t) \<notin> P" if "t \<in> set nt" for t
    using ta lt that by fastforce
  ultimately show ?thesis
    using assms(1) lt by (auto simp: awaiting_def pr ti no nth_append)
qed

lemma awaiting_elapse_before:
  assumes "awaiting P sts due cb w" and "now w + dt < due"
  shows "awaiting P sts due cb (advance dt w)"
proof -
  let ?ts = "sort_key fst (filter (\<lambda>x. fst x \<le> now w + dt) (timers w))"
  let ?w0 = "w\<lparr>now := now w + dt, timers := filter (\<lambda>x. \<not> fst x \<le> now w + dt) (timers w)\<rparr>"
  from assms(1) have wf: "well_formed w"
    and st: "\<forall>x \<in> P. x < length (promises w) \<and> promises w ! x = sts x"
    and un: "untouched P w" and ti: "(due, cb) \<in> set (timers w)"
    and on: "\<forall>t \<in> set (timers w). callback_target (snd t) \<in> P \<longrightarrow> t = (due, cb)"
    by (simp_all add: awaiting_def)
  have none: "\<forall>t \<in> set ?ts. callback_target (snd t) \<notin> P"
    using on assms(2) by fastforce
  have "untouched P ?w0" using un by (simp add: untouched_def)
  from run_tasks_untouched [OF this none]
  have u: "untouched P (advance dt w)"
    and keep: "\<forall>x \<in> P. promises (advance dt w) ! x = promises w ! x"
    by (simp_all add: advance_eq)
  have "well_formed (advance dt w)" using wf by (rule advance_well_formed)
  with u keep st ti on assms(2) show ?thesis
    by (auto simp: awaiting_def)
qed

lemma apply_op_length: "length (promises w) \<le> length (promises (apply_op x w))"
proof (cases "\<forall>dt. x \<noteq> Elapse dt")
  case True
  from apply_op_extends [OF this, of w] show ?thesis by auto
next
  case False
  then show ?thesis by auto
qed

lemma apply_op_settled:
  assumes "p < length (promises w)" and "\<not> is_pending (promises w ! p)"
  shows "promises (apply_op x w) ! p = promises w ! p"
proof (cases "\<forall>dt. x \<noteq> Elapse dt")
  case True
  from apply_op_extends [OF this, of w] assms(1) show ?thesis by (auto simp: nth_append)
next
  case False
  with assms(2) show ?thesis by (auto simp: advance_settled)
qed

lemma run_ops_settled:
  assumes "p < length (promises w)" and "\<not> is_pending (promises w ! p)"
  shows "promises (run_ops ops w) ! p = promises w ! p"
  using assms
proof (induction ops arbitrary: w)
  case Nil
  show ?case by simp
next
  case (Cons x xs)
  have eq: "promises (apply_op x w) ! p = promises w ! p"
    using Cons.prems by (rule apply_op_settled)
  have "p < length (promises (apply_op x w))"
    using Cons.prems(1) apply_op_length [of w x] by simp
  from Cons.IH [OF this] eq Cons.prems(2) show ?case by simp
qed

lemma awaiting_run:
  assumes "awaiting P sts due cb w" and "p \<in> P" and "\<not> is_pending fin"
    and hit: "\<And>w' dt. awaiting P sts due cb w' \<Longrightarrow> due \<le> now w' + dt
                \<Longrightarrow> promises (advance dt w') ! p = fin"
  shows "promises (run_ops ops w) ! p = (if due \<le> now w + elapsed ops then fin else sts p)"
  using assms(1)
proof (induction ops arbitrary: w)
  case Nil
  with assms(2) show ?case by (simp add: awaiting_def)
next
  case (Cons x xs)
  show ?case
  proof (cases "\<forall>dt. x \<noteq> Elapse dt")
    case True
    then have e: "elapsed (x # xs) = elapsed xs" by (cases x) simp_all
    from apply_op_extends [OF True, of w] have n: "now (apply_op x w) = now w" by auto
    from Cons.IH [OF apply_op_awaiting [OF Cons.prems True]] show ?thesis
      by (simp add: e n)
  next
    case False
    then obtain dt where x: "x = Elapse dt" by auto
    show ?thesis
    proof (cases "due \<le> now w + dt")
      case True
      from hit [OF Cons.prems True] have f: "promises (advance dt w) ! p = fin" .
      from Cons.prems assms(2) have "p < length (promises (advance dt w))"
        by (simp add: awaiting_def)
      from run_ops_settled [OF this, of xs] f assms(3) True x show ?thesis by simp
    next
      case False
      then have "now w + dt < due" by simp
      from Cons.IH [OF awaiting_elapse_before [OF Cons.prems this]] x show ?thesis
        by (simp add: add.assoc)
    qed
  qed
qed

lemma timer_hit:
  assumes "awaiting {p} (\<lambda>x. Pending []) due (ResolveWith p v) w" and "due \<le> now w + dt"
  shows "promises (advance dt w) ! p = Fulfilled v"
proof -
  let ?ts = "sort_key fst (filter (\<lambda>x. fst x \<le> now w + dt) (timers w))"
  let ?w0 = "w\<lparr>now := now w + dt, timers := filter (\<lambda>x. \<not> fst x \<le> now w + dt) (timers w)\<rparr>"
  from assms(1) have wf: "well_formed w" and lt: "p < length (promises w)"
    and pe: "promises w ! p = Pending []" and un: "untouched {p} w"
    and ti: "(due, ResolveWith p v) \<in> set (timers w)"
    and on: "\<forall>t \<in> set (timers w). callback_target (snd t) \<in> {p} \<longrightarrow> t = (due, ResolveWith p v)"
    by (simp_all add: awaiting_def)
  have a1: "p < length (promises ?w0)" and a2: "promises ?w0 ! p = Pending []"
    using lt pe by simp_all
  have a3: "untouched {p} ?w0" using un by (simp add: untouched_def)
  have a4: "microtasks ?w0 = []" using wf by (simp add: well_formed_microtasks)
  have a5: "\<forall>t \<in> set ?ts. callback_target (snd t) = p \<longrightarrow> snd t = ResolveWith p v"
    using on by fastforce
  have ex: "\<exists>t \<in> set ?ts. callback_target (snd t) = p"
    using ti assms(2) by force
  from run_tasks_timer_promise [OF a1 a2 a3 a4 a5] ex show ?thesis
    by (simp add: advance_eq)
qed

lemma async_hit:
  assumes "awaiting {p, q} (\<lambda>x. if x = p then Pending [] else Pending [ResumeFetchServerData p])
             due (ResolveWith q Undefined) w"
    and "p \<noteq> q" and "due \<le> now w + dt"
  shows "promises (advance dt w) ! p = Fulfilled (ServerDataV server_products)"
proof -
  let ?ts = "sort_key fst (filter (\<lambda>x. fst x \<le> now w + dt) (timers w))"
  let ?w0 = "w\<lparr>now := now w + dt, timers := filter (\<lambda>x. \<not> fst x \<le> now w + dt) (timers w)\<rparr>"
  from assms(1,2) have wf: "well_formed w"
    and lt: "p < length (promises w)" "q < length (promises w)"
    and pe: "promises w ! p = Pending []" "promises w ! q = Pending [ResumeFetchServerData p]"
    and un: "untouched {p, q} w"
    and ti: "(due, ResolveWith q Undefined) \<in> set (timers w)"
    and on: "\<forall>t \<in> set (timers w). callback_target (snd t) \<in> {p, q}
               \<longrightarrow> t = (due, ResolveWith q Undefined)"
    by (simp_all add: awaiting_def)
  have a1: "p < length (promises ?w0)" and a2: "q < length (promises ?w0)"
    and a4: "promises ?w0 ! p = Pending []"
    and a5: "promises ?w0 ! q = Pending [ResumeFetchServerData p]"
    using lt pe by simp_all
  have a6: "untouched {p, q} ?w0" using un by (simp add: untouched_def)
  have a7: "microtasks ?w0 = []" using wf by (simp add: well_formed_microtasks)
  have a8: "\<forall>t \<in> set ?ts. callback_target (snd t) \<in> {p, q} \<longrightarrow> snd t = ResolveWith q Undefined"
    using on by fastforce
  have ex: "\<exists>t \<in> set ?ts. callback_target (snd t) = q"
    using ti assms(3) by force
  from run_tasks_async_promise [OF a1 a2 assms(2) a4 a5 a6 a7 a8] ex show ?thesis
    by (simp add: advance_eq)
qed

lemma awaiting_fresh_timer:
  assumes wf: "well_formed w"
    and pr: "promises w' = promises w @ [Pending []]"
    and ti: "timers w' = timers w @ [(now w + Suc d, ResolveWith (length (promises w)) v)]"
    and fr: "microtasks w' = []" "now w' = now w" "userCache w' = userCache w"
      "postsCache w' = postsCache w" "serverDataCache w' = serverDataCache w"
  shows "awaiting {length (promises w)} (\<lambda>x. Pending []) (now w + Suc d)
           (ResolveWith (length (promises w)) v) w'"
proof -
  have old: "callback_target b < length (promises w)" if "(a, b) \<in> set (timers w)" for a b
    using well_formed_timers [OF wf that] by simp
  have "well_formed w'"
    using wf by (fastforce simp: well_formed_iff handles_ok_def pr ti fr less_Suc_eq)
  moreover have "untouched {length (promises w)} w'"
    unfolding untouched_def
  proof (intro conjI allI impI ballI)
    fix m assume "m \<in> set (microtasks w')"
    with fr(1) show "reaction_target (fst m) \<notin> {length (promises w)}" by simp
  next
    fix i r
    assume i: "i < length (promises w')" "i \<notin> {length (promises w)}"
      and r: "r \<in> set (stored_reactions (promises w' ! i))"
    from i have lt: "i < length (promises w)" by (simp add: pr)
    with r have "r \<in> set (stored_reactions (promises w ! i))" by (simp add: pr nth_append)
    from well_formed_reactions [OF wf lt this]
    show "reaction_target r \<notin> {length (promises w)}" by simp
  qed
  ultimately show ?thesis
    by (auto simp: awaiting_def pr ti fr dest: old)
qed

lemma awaiting_fresh_async:
  assumes wf: "well_formed w"
    and pr: "promises w' = promises w @ [Pending [], Pending [ResumeFetchServerData (length (promises w))]]"
    and ti: "timers w' = timers w @ [(now w + Suc d, ResolveWith (Suc (length (promises w))) Undefined)]"
    and fr: "microtasks w' = []" "now w' = now w" "userCache w' = userCache w"
      "postsCache w' = postsCache w" "serverDataCache w' = serverDataCache w"
  shows "awaiting {length (promises w), Suc (length (promises w))}
           (\<lambda>x. if x = length (promises w) then Pending []
                 else Pending [ResumeFetchServerData (length (promises w))])
           (now w + Suc d) (ResolveWith (Suc (length (promises w))) Undefined) w'"
proof -
  have old: "callback_target b < length (promises w)" if "(a, b) \<in> set (timers w)" for a b
    using well_formed_timers [OF wf that] by simp
  have "well_formed w'"
    using wf by (fastforce simp: well_formed_iff handles_ok_def pr ti fr less_Suc_eq)
  moreover have "untouched {length (promises w), Suc (length (promises w))} w'"
    unfolding untouched_def
  proof (intro conjI allI impI ballI)
    fix m assume "m \<in> set (microtasks w')"
    with fr(1) show "reaction_target (fst m) \<notin> {length (promises w), Suc (length (promises w))}"
      by simp
  next
    fix i r
    assume i: "i < length (promises w')" "i \<notin> {length (promises w), Suc (length (promises w))}"
      and r: "r \<in> set (stored_reactions (promises w' ! i))"
    from i have lt: "i < length (promises w)" by (auto simp: pr)
    with r have "r \<in> set (stored_reactions (promises w ! i))" by (simp add: pr nth_append)
    from well_formed_reactions [OF wf lt this]
    show "reaction_target r \<notin> {length (promises w), Suc (length (promises w))}" by simp
  qed
  ultimately show ?thesis
    by (auto simp: awaiting_def pr ti fr nth_append dest: old)
qed

lemma fetchUser_in_run:
  assumes "well_formed w"
  shows "promises (run_ops ops (snd (fetchUser k w))) ! fst (fetchUser k w) =
           (if 1500 \<le> elapsed ops then Fulfilled (UserV (user_payload k)) else Pending [])"
proof -
  let ?p = "length (promises w)"
  let ?w' = "snd (fetchUser k w)"
  have a: "awaiting {?p} (\<lambda>x. Pending []) (now w + Suc 1499) (ResolveWith ?p (UserV (user_payload k))) ?w'"
    using assms by (rule awaiting_fresh_timer) (simp_all add: fetchUser_eq well_formed_microtasks [OF assms])
  have "promises (run_ops ops ?w') ! ?p =
          (if now w + Suc 1499 \<le> now ?w' + elapsed ops then Fulfilled (UserV (user_payload k))
           else Pending [])"
    using a by (rule awaiting_run) (simp_all add: timer_hit)
  then show ?thesis by (simp add: fetchUser_eq)
qed

lemma fetchPosts_in_run:
  assumes "well_formed w"
  shows "promises (run_ops ops (snd (fetchPosts k w))) ! fst (fetchPosts k w) =
           (if 2000 \<le> elapsed ops then Fulfilled (PostsV (posts_payload k)) else Pending [])"
proof -
  let ?p = "length (promises w)"
  let ?w' = "snd (fetchPosts k w)"
  have a: "awaiting {?p} (\<lambda>x. Pending []) (now w + Suc 1999) (ResolveWith ?p (PostsV (posts_payload k))) ?w'"
    using assms by (rule awaiting_fresh_timer) (simp_all add: fetchPosts_eq well_formed_microtasks [OF assms])
  have "promises (run_ops ops ?w') ! ?p =
          (if now w + Suc 1999 \<le> now ?w' + elapsed ops then Fulfilled (PostsV (posts_payload k))
           else Pending [])"
    using a by (rule awaiting_run) (simp_all add: timer_hit)
  then show ?thesis by (simp add: fetchPosts_eq)
qed

lemma fetchServerData_in_run:
  assumes "well_formed w"
  shows "promises (run_ops ops (snd (fetchServerData w))) ! fst (fetchServerData w) =
           (if 800 \<le> elapsed ops then Fulfilled (ServerDataV server_products) else Pending [])"
proof -
  let ?p = "length (promises w)"
  let ?q = "Suc (length (promises w))"
  let ?w' = "snd (fetchServerData w)"
  let ?sts = "\<lambda>x. if x = ?p then Pending [] else Pending [ResumeFetchServerData ?p]"
  have a: "awaiting {?p, ?q} ?sts (now w + Suc 799) (ResolveWith ?q Undefined) ?w'"
    using assms by (rule awaiting_fresh_async) (simp_all add: fetchServerData_eq well_formed_microtasks [OF assms])
  have "promises (run_ops ops ?w') ! ?p =
          (if now w + Suc 799 \<le> now ?w' + elapsed ops then Fulfilled (ServerDataV server_products)
           else ?sts ?p)"
    using a by (rule awaiting_run) (simp_all add: async_hit)
  then show ?thesis by (simp add: fetchServerData_eq)
qed

subsection \<open>A cached key in any run without its eviction\<close>

lemma apply_op_keeps_user:
  assumes "Map_get (userCache w) k = Some p" and "x \<noteq> Evict_user k"
  shows "Map_get (userCache (apply_op x w)) k = Some p"
proof (cases x)
  case (Get_user k')
  show ?thesis
  proof (cases "Map_has (userCache w) k'")
    case True
    with Get_user assms(1) show ?thesis by (simp add: getUserPromise_hit)
  next
    case False
    with assms(1) have "k' \<noteq> k" by (auto simp: Map_has_get)
    with Get_user False assms(1) show ?thesis
      by (simp add: getUserPromise_miss Map_get_set_other)
  qed
next
  case (Get_posts k')
  with getPostsPromise_snd [of k' w] assms(1) show ?thesis by auto
next
  case Get_serverData
  with getServerData_snd [of w] assms(1) show ?thesis by auto
next
  case (Evict_user k')
  with assms show ?thesis by (simp add: userCache_delete_def Map_get_delete_other)
next
  case (Evict_posts k')
  with assms(1) show ?thesis by simp
next
  case Reset_serverData
  with assms(1) show ?thesis by simp
next
  case (Elapse dt)
  with assms(1) show ?thesis by simp
qed

lemma apply_op_keeps_posts:
  assumes "Map_get (postsCache w) k = Some p" and "x \<noteq> Evict_posts k"
  shows "Map_get (postsCache (apply_op x w)) k = Some p"
proof (cases x)
  case (Get_posts k')
  show ?thesis
  proof (cases "Map_has (postsCache w) k'")
    case True
    with Get_posts assms(1) show ?thesis by (simp add: getPostsPromise_hit)
  next
    case False
    with assms(1) have "k' \<noteq> k" by (auto simp: Map_has_get)
    with Get_posts False assms(1) show ?thesis
      by (simp add: getPostsPromise_miss Map_get_set_other)
  qed
next
  case (Get_user k')
  with getUserPromise_snd [of k' w] assms(1) show ?thesis by auto
next
  case Get_serverData
  with getServerData_snd [of w] assms(1) show ?thesis by auto
next
  case (Evict_posts k')
  with assms show ?thesis by (simp add: postsCache_delete_def Map_get_delete_other)
next
  case (Evict_user k')
  with assms(1) show ?thesis by simp
next
  case Reset_serverData
  with assms(1) show ?thesis by simp
next
  case (Elapse dt)
  with assms(1) show ?thesis by simp
qed

lemma run_ops_keeps_user:
  "Map_get (userCache w) k = Some p \<Longrightarrow> Evict_user k \<notin> set ops \<Longrightarrow>
   Map_get (userCache (run_ops ops w)) k = Some p"
proof (induction ops arbitrary: w)
  case Nil
  then show ?case by simp
next
  case (Cons x xs)
  from Cons.prems have "Map_get (userCache (apply_op x w)) k = Some p"
    by (intro apply_op_keeps_user) auto
  from Cons.IH [OF this] Cons.prems(2) show ?case by simp
qed

lemma run_ops_keeps_posts:
  "Map_get (postsCache w) k = Some p \<Longrightarrow> Evict_posts k \<notin> set ops \<Longrightarrow>
   Map_get (postsCache (run_ops ops w)) k = Some p"
proof (induction ops arbitrary: w)
  case Nil
  then show ?case by simp
next
  case (Cons x xs)
  from Cons.prems have "Map_get (postsCache (apply_op x w)) k = Some p"
    by (intro apply_op_keeps_posts) auto
  from Cons.IH [OF this] Cons.prems(2) show ?case by simp
qed

lemma lookup_live_user:
  assumes "Evict_user k \<notin> set ops"
  shows "getUserPromise k (run_ops ops (snd (getUserPromise k w)))
           = (fst (getUserPromise k w), run_ops ops (snd (getUserPromise k w)))"
  using run_ops_keeps_user [OF getUserPromise_cached assms, of w]
  by (simp add: getUserPromise_hit Map_has_get)

lemma lookup_live_posts:
  assumes "Evict_posts k \<notin> set ops"
  shows "getPostsPromise k (run_ops ops (snd (getPostsPromise k w)))
           = (fst (getPostsPromise k w), run_ops ops (snd (getPostsPromise k w)))"
  using run_ops_keeps_posts [OF getPostsPromise_cached assms, of w]
  by (simp add: getPostsPromise_hit Map_has_get)

section \<open>The promise caches\<close>

text \<open>
  C1. Looking a key up a second time, with any operations of the fetch layer in between
  except the eviction of that key (other lookups, evictions of other keys, the passing of
  time), gives the promise of the first lookup and changes nothing: no promise is
  allocated and no timer is set. This holds in particular for two lookups in a row, for
  the user cache and for the posts cache. One lookup sets at most one timer, so a key
  that stays in the cache has one fetch simulation.
\<close>

theorem lookup_twice_same_promise:
  "(Evict_user k \<notin> set ops \<longrightarrow>
      getUserPromise k (run_ops ops (snd (getUserPromise k w)))
        = (fst (getUserPromise k w), run_ops ops (snd (getUserPromise k w))))
   \<and> (Evict_posts k \<notin> set ops \<longrightarrow>
      getPostsPromise k (run_ops ops (snd (getPostsPromise k w)))
        = (fst (getPostsPromise k w), run_ops ops (snd (getPostsPromise k w))))
   \<and> getUserPromise k (snd (getUserPromise k w))
        = (fst (getUserPromise k w), snd (getUserPromise k w))
   \<and> getPostsPromise k (snd (getPostsPromise k w))
        = (fst (getPostsPromise k w), snd (getPostsPromise k w))
   \<and> length (timers (snd (getUserPromise k w))) \<le> Suc (length (timers w))
   \<and> length (timers (snd (getPostsPromise k w))) \<le> Suc (length (timers w))"
proof -
  have "getUserPromise k (snd (getUserPromise k w))
          = (fst (getUserPromise k w), snd (getUserPromise k w))"
    using lookup_live_user [of k "[]" w] by simp
  moreover have "getPostsPromise k (snd (getPostsPromise k w))
          = (fst (getPostsPromise k w), snd (getPostsPromise k w))"
    using lookup_live_posts [of k "[]" w] by simp
  ultimately show ?thesis
    using lookup_live_user [of k ops w] lookup_live_posts [of k ops w]
      getUserPromise_timers [of k w] getPostsPromise_timers [of k w]
    by blast
qed

theorem lookup_twice_same_promise_witness:
  "Evict_user 1 \<notin> set [Get_posts 1, Elapse 1500, Evict_user 2, Get_user 1]
   \<and> fst (getUserPromise 1 init_world) = 0
   \<and> fst (getUserPromise 1
            (run_ops [Get_posts 1, Elapse 1500, Evict_user 2, Get_user 1]
               (snd (getUserPromise 1 init_world)))) = 0
   \<and> fst (getUserPromise 1 (snd (getUserPromise 1 init_world))) = 0"
proof -
  have n: "Evict_user 1 \<notin> set [Get_posts 1, Elapse 1500, Evict_user 2, Get_user 1]"
    by simp
  have f: "fst (getUserPromise 1 init_world) = 0"
    by (simp add: getUserPromise_init)
  from lookup_twice_same_promise [of 1 "[Get_posts 1, Elapse 1500, Evict_user 2, Get_user 1]" init_world] n
  have "getUserPromise 1 (run_ops [Get_posts 1, Elapse 1500, Evict_user 2, Get_user 1]
            (snd (getUserPromise 1 init_world)))
          = (fst (getUserPromise 1 init_world),
             run_ops [Get_posts 1, Elapse 1500, Evict_user 2, Get_user 1]
               (snd (getUserPromise 1 init_world)))"
    by blast
  moreover from lookup_twice_same_promise [of 1 "[]" init_world]
  have "getUserPromise 1 (snd (getUserPromise 1 init_world))
          = (fst (getUserPromise 1 init_world), snd (getUserPromise 1 init_world))"
    by blast
  ultimately show ?thesis using n f by simp
qed

text \<open>
  C2. Evicting a key from a cache works whether or not the key has an entry, and leaves
  the key absent. In a well-formed world the next lookup of the key then allocates a new
  promise: its handle is the first unused one, so it is none of the promises the cache
  held (in particular not the one held under this key), it is pending, and a new timer
  with the full delay (1500 ms for users, 2000 ms for posts) is set for it. The click
  handler of the demo evicts the next user id from both caches, so the render that
  follows allocates a new promise for the user and then one for the posts.
\<close>

theorem evict_then_lookup_fresh:
  assumes "well_formed w"
  shows
    "(let w1 = userCache_delete k w; r = getUserPromise k w1
      in \<not> Map_has (userCache w1) k
         \<and> fst r = length (promises w)
         \<and> Map_get (userCache w) k \<noteq> Some (fst r)
         \<and> fst r \<notin> snd ` set (userCache w)
         \<and> promises (snd r) = promises w @ [Pending []]
         \<and> timers (snd r) = timers w @ [(now w + 1500, ResolveWith (fst r) (UserV (user_payload k)))]
         \<and> Map_get (userCache (snd r)) k = Some (fst r))
     \<and> (let w1 = postsCache_delete k w; r = getPostsPromise k w1
        in \<not> Map_has (postsCache w1) k
           \<and> fst r = length (promises w)
           \<and> Map_get (postsCache w) k \<noteq> Some (fst r)
           \<and> fst r \<notin> snd ` set (postsCache w)
           \<and> promises (snd r) = promises w @ [Pending []]
           \<and> timers (snd r) = timers w @ [(now w + 2000, ResolveWith (fst r) (PostsV (posts_payload k)))]
           \<and> Map_get (postsCache (snd r)) k = Some (fst r))
     \<and> (let h = handleChangeUser k w; r = getUserPromise (fst h) (snd h);
            r' = getPostsPromise (fst h) (snd r)
        in fst h = k + 1
           \<and> fst r = length (promises w)
           \<and> fst r' = Suc (length (promises w))
           \<and> fst r \<notin> snd ` set (userCache w)
           \<and> fst r' \<notin> snd ` set (postsCache w))"
proof -
  have user: "Map_get (userCache w) k \<noteq> Some (length (promises w))"
    using cached_user_allocated [OF assms] Map_get_in_set by fastforce
  have posts: "Map_get (postsCache w) k \<noteq> Some (length (promises w))"
    using cached_posts_allocated [OF assms] Map_get_in_set by fastforce
  have a: "let w1 = userCache_delete k w; r = getUserPromise k w1
      in \<not> Map_has (userCache w1) k
         \<and> fst r = length (promises w)
         \<and> Map_get (userCache w) k \<noteq> Some (fst r)
         \<and> fst r \<notin> snd ` set (userCache w)
         \<and> promises (snd r) = promises w @ [Pending []]
         \<and> timers (snd r) = timers w @ [(now w + 1500, ResolveWith (fst r) (UserV (user_payload k)))]
         \<and> Map_get (userCache (snd r)) k = Some (fst r)"
    using user cached_user_allocated [OF assms]
    by (simp add: Let_def evict_user_lookup userCache_delete_has Map_get_set)
  have b: "let w1 = postsCache_delete k w; r = getPostsPromise k w1
        in \<not> Map_has (postsCache w1) k
           \<and> fst r = length (promises w)
           \<and> Map_get (postsCache w) k \<noteq> Some (fst r)
           \<and> fst r \<notin> snd ` set (postsCache w)
           \<and> promises (snd r) = promises w @ [Pending []]
           \<and> timers (snd r) = timers w @ [(now w + 2000, ResolveWith (fst r) (PostsV (posts_payload k)))]
           \<and> Map_get (postsCache (snd r)) k = Some (fst r)"
    using posts cached_posts_allocated [OF assms]
    by (simp add: Let_def evict_posts_lookup postsCache_delete_has Map_get_set)
  have c: "let h = handleChangeUser k w; r = getUserPromise (fst h) (snd h);
            r' = getPostsPromise (fst h) (snd r)
        in fst h = k + 1
           \<and> fst r = length (promises w)
           \<and> fst r' = Suc (length (promises w))
           \<and> fst r \<notin> snd ` set (userCache w)
           \<and> fst r' \<notin> snd ` set (postsCache w)"
  proof -
    let ?w1 = "postsCache_delete (k + 1) w"
    have h: "handleChangeUser k w = (k + 1, userCache_delete (k + 1) ?w1)"
      by (simp add: handleChangeUser_eq userCache_posts_delete_commute)
    have r: "getUserPromise (k + 1) (userCache_delete (k + 1) ?w1) =
       (length (promises w),
        (userCache_delete (k + 1) ?w1)
          \<lparr>promises := promises w @ [Pending []],
           timers := timers w @ [(now w + 1500, ResolveWith (length (promises w)) (UserV (user_payload (k + 1))))],
           userCache := Map_set (userCache (userCache_delete (k + 1) ?w1)) (k + 1) (length (promises w))\<rparr>)"
      using evict_user_lookup [of "k + 1" ?w1] by simp
    have nh: "\<not> Map_has (postsCache ?w1) (k + 1)" by (rule postsCache_delete_has)
    have "Suc (length (promises w)) \<notin> snd ` set (postsCache w)"
      by (auto dest: well_formed_caches(2) [OF assms])
    with cached_user_allocated [OF assms] nh show ?thesis
      by (simp add: h r Let_def getPostsPromise_miss)
  qed
  from a b c show ?thesis by (simp only: simp_thms)
qed

theorem evict_then_lookup_fresh_witness:
  "well_formed (snd (getUserPromise 1 init_world))
   \<and> Map_get (userCache (snd (getUserPromise 1 init_world))) 1 = Some 0
   \<and> fst (getUserPromise 1 (userCache_delete 1 (snd (getUserPromise 1 init_world)))) = 1"
proof -
  have "fst (getUserPromise 1 (userCache_delete 1 (snd (getUserPromise 1 init_world))))
          = length (promises (snd (getUserPromise 1 init_world)))"
    using evict_then_lookup_fresh [OF well_formed_after_first, of 1]
    unfolding Let_def by blast
  moreover have "length (promises (snd (getUserPromise 1 init_world))) = 1"
    by (simp add: getUserPromise_init)
  moreover have "Map_get (userCache (snd (getUserPromise 1 init_world))) 1 = Some 0"
    by (simp add: getUserPromise_init Map_get_def)
  ultimately show ?thesis
    using well_formed_after_first by simp
qed

section \<open>The fetch simulations\<close>

text \<open>
  C9. In a well-formed world, for every key and whatever the fetch layer does afterwards
  (lookups, evictions, the passing of time, in any order): the promise \<^verbatim>\<open>fetchUser\<close>
  returns is pending until 1500 ms have passed and from then on fulfilled with the user
  built from the key; the promise of \<^verbatim>\<open>fetchPosts\<close> likewise after 2000 ms with the
  three posts built from the key; the promise of \<^verbatim>\<open>fetchServerData\<close>, which takes no
  key, after 800 ms with the fixed product list. None of them is ever rejected, and in
  no world reached from the initial one is any promise rejected.
\<close>

theorem fetch_simulations_resolve_never_reject:
  assumes "well_formed w"
  shows
    "promises (run_ops ops (snd (fetchUser k w))) ! fst (fetchUser k w)
       = (if 1500 \<le> elapsed ops then Fulfilled (UserV (user_payload k)) else Pending [])
     \<and> promises (run_ops ops (snd (fetchPosts k w))) ! fst (fetchPosts k w)
       = (if 2000 \<le> elapsed ops then Fulfilled (PostsV (posts_payload k)) else Pending [])
     \<and> promises (run_ops ops (snd (fetchServerData w))) ! fst (fetchServerData w)
       = (if 800 \<le> elapsed ops then Fulfilled (ServerDataV server_products) else Pending [])
     \<and> \<not> is_rejected (promises (run_ops ops (snd (fetchUser k w))) ! fst (fetchUser k w))
     \<and> \<not> is_rejected (promises (run_ops ops (snd (fetchPosts k w))) ! fst (fetchPosts k w))
     \<and> \<not> is_rejected (promises (run_ops ops (snd (fetchServerData w))) ! fst (fetchServerData w))
     \<and> list_all (\<lambda>st. \<not> is_rejected st) (promises (run_ops ops init_world))"
proof -
  note u = fetchUser_in_run [OF assms, of ops k]
    and p = fetchPosts_in_run [OF assms, of ops k]
    and s = fetchServerData_in_run [OF assms, of ops]
  have "\<not> is_rejected (promises (run_ops ops (snd (fetchUser k w))) ! fst (fetchUser k w))"
    unfolding u by simp
  moreover have "\<not> is_rejected (promises (run_ops ops (snd (fetchPosts k w))) ! fst (fetchPosts k w))"
    unfolding p by simp
  moreover have "\<not> is_rejected (promises (run_ops ops (snd (fetchServerData w))) ! fst (fetchServerData w))"
    unfolding s by simp
  ultimately show ?thesis
    using u p s never_rejected [of ops] by (simp only: simp_thms)
qed

lemma show_int_7: "show_int 7 = ''7''"
  by (simp add: show_int_def show_nat.simps)

theorem fetch_simulations_resolve_never_reject_witness:
  "well_formed init_world
   \<and> promises (run_ops [Get_posts 3, Elapse 1000, Evict_user 7, Elapse 500]
                 (snd (fetchUser 7 init_world))) ! 0
       = Fulfilled (UserV \<lparr>user_id = 7, user_name = ''User 7'', user_email = ''user7@example.com''\<rparr>)
   \<and> promises (advance 1499 (snd (fetchUser 7 init_world))) ! 0 = Pending []
   \<and> promises (advance 2000 (snd (fetchPosts 7 init_world))) ! 0
       = Fulfilled (PostsV [\<lparr>post_id = 1, post_title = ''Post 1 by user 7''\<rparr>,
                            \<lparr>post_id = 2, post_title = ''Post 2 by user 7''\<rparr>,
                            \<lparr>post_id = 3, post_title = ''Post 3 by user 7''\<rparr>])
   \<and> promises (advance 800 (snd (fetchServerData init_world))) ! 0
       = Fulfilled (ServerDataV server_products)"
proof -
  have f: "fst (fetchUser 7 init_world) = 0" "fst (fetchPosts 7 init_world) = 0"
    "fst (fetchServerData init_world) = 0"
    by (simp_all add: fetchUser_eq fetchPosts_eq fetchServerData_eq init_world_def)
  from fetch_simulations_resolve_never_reject
         [OF init_well_formed, of "[Get_posts 3, Elapse 1000, Evict_user 7, Elapse 500]" 7]
    fetch_simulations_resolve_never_reject [OF init_well_formed, of "[Elapse 1499]" 7]
    fetch_simulations_resolve_never_reject [OF init_well_formed, of "[Elapse 2000]" 7]
    fetch_simulations_resolve_never_reject [OF init_well_formed, of "[Elapse 800]" 7]
  show ?thesis
    by (simp add: f init_well_formed user_payload_def posts_payload_def show_int_7)
qed

section \<open>The client entry\<close>

lemma hasServerContent_iff: "hasServerContent nodes = list_ex is_element nodes"
  by (simp add: hasServerContent_def children_def list_ex_iff filter_empty_conv)

text \<open>
  C3. With a root container on the page, the client entry hydrates exactly when the
  container has a child that is an element, and otherwise (in particular for an empty
  container) renders from scratch; either way the container is passed on as it is. The
  branch is a function of that one test: the other fields of the browser do not change
  the result.
\<close>

theorem client_entry_branch:
  assumes "root_childNodes b = Some nodes"
  shows
    "main b = Inr (if list_ex is_element nodes then HydrateRoot nodes else CreateRoot_render nodes)
     \<and> hydrates (main b) = list_ex is_element nodes
     \<and> (nodes = [] \<longrightarrow> main b = Inr (CreateRoot_render []))
     \<and> main (b\<lparr>has_startViewTransition := v, location := l\<rparr>) = main b"
  using assms
  by (auto simp: main_def hasServerContent_iff hydrates_def)

theorem client_entry_branch_witness:
  "main \<lparr>root_childNodes = Some [DComment ''app-html'', DElement ''div'' []],
         has_startViewTransition = True, location = ''/''\<rparr>
     = Inr (HydrateRoot [DComment ''app-html'', DElement ''div'' []])
   \<and> main \<lparr>root_childNodes = Some [DComment ''app-html''],
           has_startViewTransition = True, location = ''/''\<rparr>
     = Inr (CreateRoot_render [DComment ''app-html''])
   \<and> main \<lparr>root_childNodes = Some [], has_startViewTransition = False, location = ''/''\<rparr>
     = Inr (CreateRoot_render [])"
  using
    client_entry_branch [of "\<lparr>root_childNodes = Some [DComment ''app-html'', DElement ''div'' []],
         has_startViewTransition = True, location = ''/''\<rparr>" "[DComment ''app-html'', DElement ''div'' []]"]
    client_entry_branch [of "\<lparr>root_childNodes = Some [DComment ''app-html''],
           has_startViewTransition = True, location = ''/''\<rparr>" "[DComment ''app-html'']"]
    client_entry_branch [of "\<lparr>root_childNodes = Some [], has_startViewTransition = False, location = ''/''\<rparr>" "[]"]
  by simp

section \<open>The gallery\<close>

lemma rerender_queued: "queued g \<noteq> [] \<Longrightarrow> rerender g = g\<lparr>selectedItem := last (queued g), queued := []\<rparr>"
  by (cases "queued g") (simp_all add: rerender_def)

lemma rerender_idle: "queued g = [] \<Longrightarrow> rerender g = g"
  by (simp add: rerender_def)

lemma flushSync_set:
  "flushSync (\<lambda>g'. setSelectedItem v g') g = g\<lparr>selectedItem := v, queued := []\<rparr>"
  by (simp add: flushSync_def setSelectedItem_def rerender_queued)

lemma handleSelect_with:
  "handleSelect True it g =
     g\<lparr>selectedItem := Some it, queued := [],
       snapshots := snapshots g @ [dom g, ViewTransitionsDemo (Some it)]\<rparr>"
  by (simp add: handleSelect_def startViewTransition_def flushSync_set dom_def Let_def)

lemma handleSelect_without:
  "handleSelect False it g = g\<lparr>queued := queued g @ [Some it]\<rparr>"
  by (simp add: handleSelect_def setSelectedItem_def)

lemma handleBack_with:
  "handleBack True g =
     g\<lparr>selectedItem := None, queued := [],
       snapshots := snapshots g @ [dom g, ViewTransitionsDemo None]\<rparr>"
  by (simp add: handleBack_def startViewTransition_def flushSync_set dom_def Let_def)

lemma handleBack_without:
  "handleBack False g = g\<lparr>queued := queued g @ [None]\<rparr>"
  by (simp add: handleBack_def setSelectedItem_def)

lemma selected_after_select: "selectedItem (rerender (handleSelect c it g)) = Some it"
  by (cases c) (simp_all add: handleSelect_with handleSelect_without rerender_queued rerender_idle)

lemma selected_after_back: "selectedItem (rerender (handleBack c g)) = None"
  by (cases c) (simp_all add: handleBack_with handleBack_without rerender_queued rerender_idle)

lemma queued_after_rerender [simp]: "queued (rerender g) = []"
  by (cases "queued g") (simp_all add: rerender_def)

text \<open>
  C4. With the transition capability, selecting an item (and going back) runs inside the
  transition: the view is captured, the state change is rendered at once by
  \<^verbatim>\<open>flushSync\<close>, and the second capture already shows the new view. Without the
  capability the handler only schedules the update: nothing is captured and the shown
  state is still the old one until React renders. Once React has rendered, the selection
  is the same in both cases.
\<close>

theorem transition_wraps_state_change:
  "handleSelect True it g =
     g\<lparr>selectedItem := Some it, queued := [],
       snapshots := snapshots g @ [dom g, ViewTransitionsDemo (Some it)]\<rparr>
   \<and> handleSelect False it g = g\<lparr>queued := queued g @ [Some it]\<rparr>
   \<and> selectedItem (rerender (handleSelect True it g)) = Some it
   \<and> selectedItem (rerender (handleSelect False it g)) = Some it
   \<and> handleBack True g =
     g\<lparr>selectedItem := None, queued := [],
       snapshots := snapshots g @ [dom g, ViewTransitionsDemo None]\<rparr>
   \<and> handleBack False g = g\<lparr>queued := queued g @ [None]\<rparr>
   \<and> selectedItem (rerender (handleBack True g)) = None
   \<and> selectedItem (rerender (handleBack False g)) = None"
  by (intro conjI handleSelect_with handleSelect_without handleBack_with handleBack_without
        selected_after_select selected_after_back)

theorem transition_wraps_state_change_witness:
  "snapshots (handleSelect True (hd items) ViewTransitionsDemo_initial)
     = [ViewTransitionsDemo None, ViewTransitionsDemo (Some (hd items))]
   \<and> selectedItem (handleSelect True (hd items) ViewTransitionsDemo_initial) = Some (hd items)
   \<and> snapshots (handleSelect False (hd items) ViewTransitionsDemo_initial) = []
   \<and> selectedItem (handleSelect False (hd items) ViewTransitionsDemo_initial) = None
   \<and> selectedItem (rerender (handleSelect False (hd items) ViewTransitionsDemo_initial)) = Some (hd items)"
  using transition_wraps_state_change [of "hd items" ViewTransitionsDemo_initial]
  by (simp add: ViewTransitionsDemo_initial_def dom_def rerender_def)

text \<open>
  C8. From the list view, selecting any item and then going back, with or without the
  transition capability at either step, ends in the list view again: no item is
  selected, nothing is left scheduled, and the view is the one shown before, whose
  gallery is built from the constant item list.
\<close>

theorem select_then_back_restores_list:
  assumes "selectedItem g = None" and "queued g = []"
  shows
    "selectedItem (rerender (handleBack c' (rerender (handleSelect c it g)))) = None
     \<and> queued (rerender (handleBack c' (rerender (handleSelect c it g)))) = []
     \<and> dom (rerender (handleBack c' (rerender (handleSelect c it g)))) = dom g
     \<and> dom g = ViewTransitionsDemo None
     \<and> dom (rerender (handleSelect c it g)) = ViewTransitionsDemo (Some it)"
  using assms by (simp add: dom_def selected_after_back selected_after_select)

theorem select_then_back_restores_list_witness:
  "dom (rerender (handleBack True (rerender (handleSelect True (hd items) ViewTransitionsDemo_initial))))
     = ViewTransitionsDemo None
   \<and> dom (rerender (handleBack False (rerender (handleSelect False (hd items) ViewTransitionsDemo_initial))))
     = ViewTransitionsDemo None
   \<and> selectedItem ViewTransitionsDemo_initial = None
   \<and> queued ViewTransitionsDemo_initial = []"
  using select_then_back_restores_list [of ViewTransitionsDemo_initial True True "hd items"]
    select_then_back_restores_list [of ViewTransitionsDemo_initial False False "hd items"]
  by (simp add: ViewTransitionsDemo_initial_def)

section \<open>The tab container\<close>

lemma panels_always_rendered:
  "map snd (ActivityDemo_children t) = [VideoPlayer_panel, CommentDraft_panel, Other_panel]"
  by (simp add: ActivityDemo_children_def)

lemma setActiveTab_mounted:
  "videoPlayer s = Some v \<Longrightarrow> commentDraft s = Some c \<Longrightarrow>
   setActiveTab t s = s\<lparr>activeTab := t\<rparr>"
  by (simp add: setActiveTab_def ActivityDemo_commit_def mount_def panels_always_rendered)

lemma activity_step_state:
  assumes "videoPlayer s = Some v" and "commentDraft s = Some c"
  shows "videoPlayer (activity_step e s) = Some (video_step e v)
       \<and> commentDraft (activity_step e s) = Some (comment_step e c)"
  using assms by (cases e) (simp_all add: setActiveTab_mounted)

lemma activity_run_state:
  assumes "videoPlayer s = Some v" and "commentDraft s = Some c"
  shows "videoPlayer (activity_run es s) = Some (foldl (\<lambda>v' e. video_step e v') v es)
       \<and> commentDraft (activity_run es s) = Some (foldl (\<lambda>c' e. comment_step e c') c es)"
  using assms
proof (induction es arbitrary: s v c)
  case Nil
  then show ?case by (simp add: activity_run_def)
next
  case (Cons e es)
  from activity_step_state [OF Cons.prems, of e]
  have "videoPlayer (activity_step e s) = Some (video_step e v)"
    and "commentDraft (activity_step e s) = Some (comment_step e c)" by simp_all
  from Cons.IH [OF this] show ?case by (simp add: activity_run_def)
qed

lemma switch_tabs_run: "switch_tabs ts s = activity_run (map SetActiveTab ts) s"
  by (simp add: switch_tabs_def activity_run_def foldl_map)

lemma video_step_switches: "foldl (\<lambda>v' e. video_step e v') v (map SetActiveTab ts) = v"
  by (induction ts) simp_all

lemma comment_step_switches: "foldl (\<lambda>c' e. comment_step e c') c (map SetActiveTab ts) = c"
  by (induction ts) simp_all

lemma switch_tabs_state:
  assumes "videoPlayer s = Some v" and "commentDraft s = Some c"
  shows "videoPlayer (switch_tabs ts s) = Some v \<and> commentDraft (switch_tabs ts s) = Some c"
  using activity_run_state [OF assms, of "map SetActiveTab ts"]
  by (simp add: switch_tabs_run video_step_switches comment_step_switches)

lemma switch_tabs_activeTab: "activeTab (switch_tabs (ts @ [t]) s) = t"
  by (simp add: switch_tabs_def setActiveTab_def ActivityDemo_commit_def)

lemma ActivityDemo_initial_eq:
  "ActivityDemo_initial =
     \<lparr>activeTab = Tab_video, videoPlayer = Some VideoPlayer_initial,
      commentDraft = Some CommentDraft_initial\<rparr>"
  by (simp add: ActivityDemo_initial_def ActivityDemo_commit_def mount_def panels_always_rendered)

text \<open>
  C5. The tab content always consists of the three panels, each inside its
  \<^verbatim>\<open>Activity\<close>, whose mode is visible exactly for the active tab. With both stateful
  panels mounted, no sequence of tab switches changes the state of either (playback
  time, play flag, draft text and name); going from tab \<open>a\<close> to \<open>b\<close> and back to \<open>a\<close>
  gives the same state and the same view as before. More generally, in any run of
  events the panels' states are what their own handlers made them: the tab switches in
  between have no effect on them.
\<close>

theorem tab_switches_preserve_state:
  assumes "videoPlayer s = Some v" and "commentDraft s = Some c"
  shows
    "map snd (ActivityDemo_children t) = [VideoPlayer_panel, CommentDraft_panel, Other_panel]
     \<and> map fst (ActivityDemo_children t)
         = [if t = Tab_video then Visible else Hidden,
            if t = Tab_comment then Visible else Hidden,
            if t = Tab_other then Visible else Hidden]
     \<and> videoPlayer (switch_tabs ts s) = Some v
     \<and> commentDraft (switch_tabs ts s) = Some c
     \<and> switch_tabs [b, activeTab s] s = s
     \<and> ActivityDemo (switch_tabs [b, activeTab s] s) = ActivityDemo s
     \<and> videoPlayer (activity_run es s) = Some (foldl (\<lambda>v' e. video_step e v') v es)
     \<and> commentDraft (activity_run es s) = Some (foldl (\<lambda>c' e. comment_step e c') c es)"
proof -
  have round: "switch_tabs [b, activeTab s] s = s"
    using assms by (simp add: switch_tabs_def setActiveTab_mounted)
  show ?thesis
    using switch_tabs_state [OF assms, of ts] activity_run_state [OF assms, of es] round
    by (simp add: ActivityDemo_children_def)
qed

theorem tab_switches_preserve_state_witness:
  "videoPlayer (activity_run [TogglePlay, IntervalTick, SetActiveTab Tab_comment, SetText ''hi'',
                              SetActiveTab Tab_other, SetActiveTab Tab_video] ActivityDemo_initial)
     = Some \<lparr>currentTime = 1, isPlaying = True\<rparr>
   \<and> commentDraft (activity_run [TogglePlay, IntervalTick, SetActiveTab Tab_comment, SetText ''hi'',
                                SetActiveTab Tab_other, SetActiveTab Tab_video] ActivityDemo_initial)
     = Some \<lparr>draft_text = ''hi'', draft_name = []\<rparr>
   \<and> switch_tabs [Tab_comment, Tab_video] ActivityDemo_initial = ActivityDemo_initial"
  using tab_switches_preserve_state
    [of ActivityDemo_initial VideoPlayer_initial CommentDraft_initial Tab_video "[]" Tab_comment
        "[TogglePlay, IntervalTick, SetActiveTab Tab_comment, SetText ''hi'',
          SetActiveTab Tab_other, SetActiveTab Tab_video]"]
  by (simp add: ActivityDemo_initial_eq VideoPlayer_initial_def CommentDraft_initial_def
        togglePlay_def interval_tick_def setText_def)

section \<open>The app shell\<close>

lemma demo_UNIV: "(UNIV :: demo set) = {D_suspense, D_activity, D_viewtransitions, D_servercomponents}"
proof -
  have "x \<in> {D_suspense, D_activity, D_viewtransitions, D_servercomponents}" for x :: demo
    by (cases x) simp_all
  then show ?thesis by blast
qed

lemma App_handlers:
  "handlers (App d) = [D_suspense, D_activity, D_viewtransitions, D_servercomponents]"
  by (simp add: App_def nav_button_def App_main_def)

lemma App_main_eq: "App_main d = [Comp (demo_component d)]"
  by (cases d) (simp_all add: App_main_def demo_component_def)

text \<open>
  The earlier revision has the same default and the same rule for the main area, over
  the three selections it offers.
\<close>

lemma App_earlier_selection:
  "handlers (App_earlier d) = [D_suspense, D_activity, D_viewtransitions]
   \<and> (d \<noteq> D_servercomponents \<longrightarrow>
        App_earlier d =
          El ''div'' [(''className'', ''app'')] None
            [El ''header'' [(''className'', ''app-header'')] None
               [El ''h1'' [] None [Txt ''React 19 Features Demo''],
                El ''p'' [] None [Txt ''Exploring Suspense, Activity, and View Transitions'']],
             El ''nav'' [(''className'', ''demo-nav'')] None
               [nav_button d D_suspense ''Suspense'',
                nav_button d D_activity ''Activity'',
                nav_button d D_viewtransitions ''View Transitions''],
             El ''main'' [(''className'', ''demo-content'')] None [Comp (demo_component d)]])"
  by (cases d) (simp_all add: App_earlier_def nav_button_def demo_component_def)

text \<open>
  C6. The selection is one of the four values; it starts as \<^verbatim>\<open>suspense\<close>; the only
  handlers the shell offers are the four navigation buttons, one per value, and a click
  sets the selection to the button's value (an element without a handler changes
  nothing); the main area holds exactly one component element, the demo of the current
  selection.
\<close>

theorem app_shell_selection:
  "(UNIV :: demo set) = {D_suspense, D_activity, D_viewtransitions, D_servercomponents}
   \<and> App_initial = D_suspense
   \<and> handlers (App d) = [D_suspense, D_activity, D_viewtransitions, D_servercomponents]
   \<and> click (Some d') d = d'
   \<and> click None d = d
   \<and> App_main d = [Comp (demo_component d)]
   \<and> App d =
       El ''div'' [(''className'', ''app'')] None
         [El ''header'' [(''className'', ''app-header'')] None
            [El ''h1'' [] None [Txt ''React 19 Features Demo''],
             El ''p'' [] None
               [Txt ''Exploring Suspense, Activity, View Transitions, and Server Components'']],
          El ''nav'' [(''className'', ''demo-nav'')] None
            [nav_button d D_suspense ''Suspense'',
             nav_button d D_activity ''Activity'',
             nav_button d D_viewtransitions ''View Transitions'',
             nav_button d D_servercomponents ''Server Components''],
          El ''main'' [(''className'', ''demo-content'')] None [Comp (demo_component d)]]"
  by (intro conjI demo_UNIV App_handlers App_main_eq)
     (simp_all add: App_initial_def click_def App_def App_main_eq)

theorem app_shell_selection_witness:
  "App_main (click (Some D_viewtransitions) App_initial) = [Comp C_ViewTransitionsDemo]
   \<and> App_main App_initial = [Comp C_SuspenseDemo]"
  using app_shell_selection [of App_initial D_viewtransitions]
    app_shell_selection [of D_viewtransitions D_viewtransitions]
  by (simp add: demo_component_def)

section \<open>The server entry\<close>

lemma SuspenseDemo_world:
  "snd (SuspenseDemo userId w) = snd (getPostsPromise userId (snd (getUserPromise userId w)))"
  by (simp add: SuspenseDemo_def split_beta)

lemma ssr_App_initial:
  "ssr (App App_initial) w =
     ([HEl ''div'' [(''className'', ''app'')]
         [HEl ''header'' [(''className'', ''app-header'')]
            [HEl ''h1'' [] [HTxt ''React 19 Features Demo''],
             HEl ''p'' []
               [HTxt ''Exploring Suspense, Activity, View Transitions, and Server Components'']],
          HEl ''nav'' [(''className'', ''demo-nav'')]
            [HEl ''button'' [(''className'', ''nav-button active'')] [HTxt ''Suspense''],
             HEl ''button'' [(''className'', ''nav-button '')] [HTxt ''Activity''],
             HEl ''button'' [(''className'', ''nav-button '')] [HTxt ''View Transitions''],
             HEl ''button'' [(''className'', ''nav-button '')] [HTxt ''Server Components'']],
          HEl ''main'' [(''className'', ''demo-content'')] (fst (SuspenseDemo 1 w))]],
      snd (SuspenseDemo 1 w))"
  by (simp add: App_def App_initial_def App_main_def nav_button_def render_component_def
        SuspenseDemo_initial_def split_beta)

lemma render_eq:
  "render serialize url m w =
     (\<lparr>html = serialize (fst (ssr (App App_initial) w)), head = None\<rparr>,
      snd (ssr (App App_initial) w))"
  by (simp add: render_def renderToString_App_def split_beta)

lemma lookups_hit:
  "Map_has (userCache w) k \<Longrightarrow> Map_has (postsCache w) k \<Longrightarrow>
   snd (getPostsPromise k (snd (getUserPromise k w))) = w"
  by (simp add: getUserPromise_hit getPostsPromise_hit)

lemma lookups_miss:
  "\<not> Map_has (userCache w) k \<Longrightarrow> \<not> Map_has (postsCache w) k \<Longrightarrow>
   timers (snd (getPostsPromise k (snd (getUserPromise k w)))) =
     timers w @ [(now w + 1500, ResolveWith (length (promises w)) (UserV (user_payload k))),
                 (now w + 2000, ResolveWith (Suc (length (promises w))) (PostsV (posts_payload k)))]"
  by (simp add: getUserPromise_miss getPostsPromise_miss fetchUser_eq fetchPosts_eq)

text \<open>
  C7, as the code has it. For every route and manifest the server entry returns, in
  one synchronous pass, the object with the markup of the app shell around the
  Suspense demo at its initial user id 1, and no head fragment. The pass calls no
  handler and runs no effect, but rendering the Suspense demo looks user 1 up in both
  promise caches: the world after the pass is the world after these two lookups.
  When both caches hold the key the pass changes nothing; when neither does it sets the
  two fetch timers, of 1500 ms and 2000 ms.
\<close>

theorem server_render_markup_and_effects:
  "render serialize url m w =
     (\<lparr>html = serialize
         [HEl ''div'' [(''className'', ''app'')]
            [HEl ''header'' [(''className'', ''app-header'')]
               [HEl ''h1'' [] [HTxt ''React 19 Features Demo''],
                HEl ''p'' []
                  [HTxt ''Exploring Suspense, Activity, View Transitions, and Server Components'']],
             HEl ''nav'' [(''className'', ''demo-nav'')]
               [HEl ''button'' [(''className'', ''nav-button active'')] [HTxt ''Suspense''],
                HEl ''button'' [(''className'', ''nav-button '')] [HTxt ''Activity''],
                HEl ''button'' [(''className'', ''nav-button '')] [HTxt ''View Transitions''],
                HEl ''button'' [(''className'', ''nav-button '')] [HTxt ''Server Components'']],
             HEl ''main'' [(''className'', ''demo-content'')] (fst (SuspenseDemo 1 w))]],
       head = None\<rparr>,
      snd (getPostsPromise 1 (snd (getUserPromise 1 w))))
   \<and> (Map_has (userCache w) 1 \<and> Map_has (postsCache w) 1
        \<longrightarrow> snd (render serialize url m w) = w)
   \<and> (\<not> Map_has (userCache w) 1 \<and> \<not> Map_has (postsCache w) 1
        \<longrightarrow> timers (snd (render serialize url m w)) =
              timers w @ [(now w + 1500, ResolveWith (length (promises w)) (UserV (user_payload 1))),
                          (now w + 2000, ResolveWith (Suc (length (promises w))) (PostsV (posts_payload 1)))])"
  by (simp add: render_eq ssr_App_initial SuspenseDemo_world lookups_hit lookups_miss)

lemma world_after_first_render:
  "snd (render serialize url m init_world) =
     \<lparr>now = 0, promises = [Pending [], Pending []],
      timers = [(1500, ResolveWith 0 (UserV (user_payload 1))),
                (2000, ResolveWith 1 (PostsV (posts_payload 1)))],
      microtasks = [], userCache = [(1, 0)], postsCache = [(1, 1)], serverDataCache = None\<rparr>"
  by (simp add: render_eq ssr_App_initial SuspenseDemo_world getUserPromise_miss
        getPostsPromise_miss fetchUser_eq fetchPosts_eq Map_has_def Map_set_def init_world_def)

theorem server_render_markup_and_effects_witness:
  "\<not> Map_has (userCache init_world) 1 \<and> \<not> Map_has (postsCache init_world) 1
   \<and> timers (snd (render plain_markup_list ''/'' None init_world)) =
       [(1500, ResolveWith 0 (UserV (user_payload 1))),
        (2000, ResolveWith 1 (PostsV (posts_payload 1)))]
   \<and> Map_has (userCache (snd (render plain_markup_list ''/'' None init_world))) 1
   \<and> Map_has (postsCache (snd (render plain_markup_list ''/'' None init_world))) 1
   \<and> snd (render plain_markup_list ''/'' None (snd (render plain_markup_list ''/'' None init_world)))
       = snd (render plain_markup_list ''/'' None init_world)"
proof -
  let ?w1 = "snd (render plain_markup_list ''/'' None init_world)"
  have miss: "\<not> Map_has (userCache init_world) 1 \<and> \<not> Map_has (postsCache init_world) 1"
    by (simp add: init_caches_empty)
  have hit: "Map_has (userCache ?w1) 1 \<and> Map_has (postsCache ?w1) 1"
    by (simp add: world_after_first_render Map_has_def)
  have "timers ?w1 = timers init_world
          @ [(now init_world + 1500, ResolveWith (length (promises init_world)) (UserV (user_payload 1))),
             (now init_world + 2000, ResolveWith (Suc (length (promises init_world))) (PostsV (posts_payload 1)))]"
    using server_render_markup_and_effects [of plain_markup_list "''/''" None init_world] miss
    by blast
  moreover have "snd (render plain_markup_list ''/'' None ?w1) = ?w1"
    using server_render_markup_and_effects [of plain_markup_list "''/''" None ?w1] hit
    by blast
  ultimately show ?thesis
    using miss hit by (simp add: init_caches_empty)
qed

text \<open>
  C7 as the specification words it, that the pass performs no timer-based side effect,
  fails on the first request: no timer is set before the pass and two are set after it.
\<close>

theorem server_render_sets_timers:
  "timers init_world = []
   \<and> timers (snd (render plain_markup_list ''/'' None init_world)) =
       [(1500, ResolveWith 0 (UserV (user_payload 1))),
        (2000, ResolveWith 1 (PostsV (posts_payload 1)))]"
  by (simp add: render_eq ssr_App_initial SuspenseDemo_world lookups_miss init_caches_empty)

text \<open>What the first request's markup shows for the demo: the fallback of the outer boundary.\<close>

lemma first_render_shows_fallback:
  "fst (SuspenseDemo 1 init_world) =
     [HEl ''div'' [(''className'', ''demo-section'')]
        [HEl ''h2'' [] [HTxt ''Suspense Demo''],
         HEl ''p'' [(''className'', ''demo-description'')]
           [HTxt (''React 19'' @ [CHR 0x27] @ ''s ''),
            HEl ''code'' [] [HTxt ''use()''],
            HTxt '' hook lets you read promises directly in components. Suspense boundaries catch the pending state and show fallback UI.''],
         HEl ''button'' [(''className'', ''demo-button'')] [HTxt ''Load User '', HTxt ''2''],
         HEl ''div'' [(''className'', ''suspense-container'')] (LoadingSpinner ''user'')]]"
  by (simp add: SuspenseDemo_def getUserPromise_miss getPostsPromise_miss fetchUser_eq fetchPosts_eq
        init_caches_empty split_beta UserCard_def use_def Suspense_def show_int_def show_nat.simps
        nth_append)

text \<open>
  C10. The server entry ignores both of its arguments: from the same world, any two
  routes and manifests give the same result and the same world afterwards, and the
  result never has a head fragment.
\<close>

theorem render_ignores_arguments:
  "render serialize url1 m1 w = render serialize url2 m2 w
   \<and> head (fst (render serialize url1 m1 w)) = None"
  by (simp add: render_def split_beta)

theorem render_ignores_arguments_witness:
  "render plain_markup_list ''/'' None init_world
     = render plain_markup_list ''/activity?x=1'' (Some ''{}'') init_world"
  using render_ignores_arguments [of plain_markup_list "''/''" None init_world "''/activity?x=1''" "Some ''{}''"]
  by simp

end
